theory Spec2Isabelle
  imports Complex_Main "HOL-Library.Sublist" "HOL-Library.Multiset"
begin

text \<open>
  A shallow embedding of the ingestion and retrieval pipeline of the repository:
  the chunking engine and the vector store (lib/pdf.js, lib/db.js), the embedding client
  (lib/gemini.js), the document classifier and hybrid extraction (lib/ocr.js), the batch
  partitioning of the vision batcher (lib/groq.js) and the chat handler (App.jsx).
  All definitions come first, the properties follow.
\<close>

section \<open>JavaScript values\<close>

subsection \<open>Strings\<close>

text \<open>
  A JavaScript string is a sequence of UTF-16 code units and \<open>length\<close> counts code units;
  the punctuation the chunker looks for (full-width stops and commas) is one code unit each.
  A code unit is modelled by its number.
\<close>

type_synonym jschar = nat
type_synonym jsstring = "jschar list"

definition ascii :: "string \<Rightarrow> jsstring" where
  "ascii s = map of_char s"

text \<open>
  The characters that \<open>String.prototype.trim\<close> strips and that \<open>\s\<close> matches in a regular
  expression: the WhiteSpace and LineTerminator code points of ECMAScript.
\<close>

definition is_js_space :: "jschar \<Rightarrow> bool" where
  "is_js_space c =
     (c \<in> set [9, 10, 11, 12, 13, 32, 160, 5760, 8232, 8233, 8239, 8287, 12288, 65279]
      \<or> (8192 \<le> c \<and> c \<le> 8202))"

definition js_trim :: "jsstring \<Rightarrow> jsstring" where
  "js_trim s = rev (dropWhile is_js_space (rev (dropWhile is_js_space s)))"

text \<open>\<open>Array.prototype.join\<close> on an array of strings.\<close>

fun js_join :: "jsstring \<Rightarrow> jsstring list \<Rightarrow> jsstring" where
  "js_join sep [] = []"
| "js_join sep [x] = x"
| "js_join sep (x # y # ys) = x @ sep @ js_join sep (y # ys)"

text \<open>\<open>String.prototype.includes\<close>: the needle occurs as a contiguous part.\<close>

fun js_includes :: "jsstring \<Rightarrow> jsstring \<Rightarrow> bool" where
  "js_includes [] needle = (needle = [])"
| "js_includes (c # cs) needle = (prefix needle (c # cs) \<or> js_includes cs needle)"

text \<open>
  \<open>Array.prototype.slice(start, end)\<close> and \<open>String.prototype.substring(start, end)\<close> on
  integer arguments: \<open>slice\<close> counts a negative index from the end, \<open>substring\<close> clamps both
  indices into the string and swaps them when they are out of order.
\<close>

definition js_slice_index :: "nat \<Rightarrow> int \<Rightarrow> nat" where
  "js_slice_index len i = (if i < 0 then nat (max 0 (int len + i)) else min (nat i) len)"

definition js_slice :: "'a list \<Rightarrow> int \<Rightarrow> int \<Rightarrow> 'a list" where
  "js_slice xs start end' =
     (let a = js_slice_index (length xs) start; b = js_slice_index (length xs) end'
      in take (b - a) (drop a xs))"

definition js_substring :: "jsstring \<Rightarrow> int \<Rightarrow> int \<Rightarrow> jsstring" where
  "js_substring s start end' =
     (let a = min (nat (max 0 start)) (length s); b = min (nat (max 0 end')) (length s)
      in take (max a b - min a b) (drop (min a b) s))"

text \<open>\<open>Array.prototype.findIndex\<close>; \<open>None\<close> stands for the result \<open>-1\<close>.\<close>

fun findIndex :: "('a \<Rightarrow> bool) \<Rightarrow> 'a list \<Rightarrow> nat option" where
  "findIndex p [] = None"
| "findIndex p (x # xs) =
     (if p x then Some 0 else (case findIndex p xs of None \<Rightarrow> None | Some i \<Rightarrow> Some (Suc i)))"

text \<open>A thrown \<open>Error\<close>; its \<open>message\<close> may be undefined (\<open>None\<close>).\<close>

datatype jserror = JsError (error_message: "jsstring option")

subsection \<open>Numbers\<close>

text \<open>
  A JavaScript number is an IEEE 754 binary64 value: a finite number, an infinity or NaN
  (the sign of zero is not modelled: no division below has a negative zero as its divisor).
  The arithmetic takes the rounding of a real result to a number as a parameter \<open>rnd\<close>:
  \<open>Num\<close> is exact real arithmetic, \<open>f64\<close> below is round-to-nearest-even of binary64.
\<close>

datatype jsnum = Num real | PosInf | NegInf | NaN

type_synonym rounding = "real \<Rightarrow> jsnum"

fun js_add :: "rounding \<Rightarrow> jsnum \<Rightarrow> jsnum \<Rightarrow> jsnum" where
  "js_add rnd (Num x) (Num y) = rnd (x + y)"
| "js_add rnd NaN _ = NaN"
| "js_add rnd _ NaN = NaN"
| "js_add rnd PosInf NegInf = NaN"
| "js_add rnd NegInf PosInf = NaN"
| "js_add rnd PosInf _ = PosInf"
| "js_add rnd NegInf _ = NegInf"
| "js_add rnd _ PosInf = PosInf"
| "js_add rnd _ NegInf = NegInf"

fun js_neg :: "jsnum \<Rightarrow> jsnum" where
  "js_neg (Num x) = Num (- x)"
| "js_neg PosInf = NegInf"
| "js_neg NegInf = PosInf"
| "js_neg NaN = NaN"

definition js_sub :: "rounding \<Rightarrow> jsnum \<Rightarrow> jsnum \<Rightarrow> jsnum" where
  "js_sub rnd x y = js_add rnd x (js_neg y)"

fun js_mul :: "rounding \<Rightarrow> jsnum \<Rightarrow> jsnum \<Rightarrow> jsnum" where
  "js_mul rnd (Num x) (Num y) = rnd (x * y)"
| "js_mul rnd NaN _ = NaN"
| "js_mul rnd _ NaN = NaN"
| "js_mul rnd PosInf (Num y) = (if y = 0 then NaN else if y > 0 then PosInf else NegInf)"
| "js_mul rnd NegInf (Num y) = (if y = 0 then NaN else if y > 0 then NegInf else PosInf)"
| "js_mul rnd (Num x) PosInf = (if x = 0 then NaN else if x > 0 then PosInf else NegInf)"
| "js_mul rnd (Num x) NegInf = (if x = 0 then NaN else if x > 0 then NegInf else PosInf)"
| "js_mul rnd PosInf PosInf = PosInf"
| "js_mul rnd NegInf NegInf = PosInf"
| "js_mul rnd PosInf NegInf = NegInf"
| "js_mul rnd NegInf PosInf = NegInf"

fun js_div :: "rounding \<Rightarrow> jsnum \<Rightarrow> jsnum \<Rightarrow> jsnum" where
  "js_div rnd (Num x) (Num y) =
     (if y = 0 then (if x = 0 then NaN else if x > 0 then PosInf else NegInf)
      else rnd (x / y))"
| "js_div rnd NaN _ = NaN"
| "js_div rnd _ NaN = NaN"
| "js_div rnd (Num x) PosInf = Num 0"
| "js_div rnd (Num x) NegInf = Num 0"
| "js_div rnd PosInf (Num y) = (if y \<ge> 0 then PosInf else NegInf)"
| "js_div rnd NegInf (Num y) = (if y \<ge> 0 then NegInf else PosInf)"
| "js_div rnd _ _ = NaN"

fun js_sqrt :: "rounding \<Rightarrow> jsnum \<Rightarrow> jsnum" where
  "js_sqrt rnd (Num x) = (if x < 0 then NaN else rnd (sqrt x))"
| "js_sqrt rnd PosInf = PosInf"
| "js_sqrt rnd _ = NaN"

text \<open>The comparison \<open><\<close>: false whenever an operand is NaN.\<close>

fun js_lt :: "jsnum \<Rightarrow> jsnum \<Rightarrow> bool" where
  "js_lt (Num x) (Num y) = (x < y)"
| "js_lt NaN _ = False"
| "js_lt _ NaN = False"
| "js_lt NegInf NegInf = False"
| "js_lt NegInf _ = True"
| "js_lt _ NegInf = False"
| "js_lt PosInf _ = False"
| "js_lt _ PosInf = True"

text \<open>
  Round-to-nearest, ties to even, of binary64: 53 significant bits, the exponent of the
  leading bit at least \<open>-1022\<close> (below it the spacing stays \<open>2 ^ -1074\<close>: subnormal numbers),
  and an infinity when the rounded value reaches \<open>2 ^ 1024\<close>.
\<close>

definition round_half_even :: "real \<Rightarrow> int" where
  "round_half_even r =
     (let f = \<lfloor>r\<rfloor>; d = r - of_int f
      in if d < 1 / 2 then f else if d > 1 / 2 then f + 1 else if even f then f else f + 1)"

definition f64 :: rounding where
  "f64 x =
     (if x = 0 then Num 0
      else let e = max \<lfloor>log 2 \<bar>x\<bar>\<rfloor> (- 1022);
               q = 2 powr (of_int e - 52);
               y = of_int (round_half_even (\<bar>x\<bar> / q)) * q
           in if y \<ge> 2 powr 1024 then (if x > 0 then PosInf else NegInf)
              else Num (if x > 0 then y else - y))"

text \<open>
  \<open>Array.prototype.sort\<close> with a comparison function belongs to the engine. ECMAScript
  fixes its result (a stable sort that puts \<open>a\<close> before \<open>b\<close> when \<open>cmp a b\<close> is negative)
  only where the comparison function is consistent on the elements; where it is not, as
  when a comparison is NaN, the order is left to the engine. The functions that sort take
  the engine's sort as the parameter \<open>engine_sort\<close>.
\<close>

type_synonym 'a sorting = "('a \<Rightarrow> 'a \<Rightarrow> jsnum) \<Rightarrow> 'a list \<Rightarrow> 'a list"

text \<open>
  A stable insertion sort, for the evaluation of examples in which no comparison is NaN:
  there it computes the order that ECMAScript fixes. An element moves to the right past the
  elements it is to come after (\<open>cmp x y\<close> positive).
\<close>

fun insert_sorted :: "('a \<Rightarrow> 'a \<Rightarrow> jsnum) \<Rightarrow> 'a \<Rightarrow> 'a list \<Rightarrow> 'a list" where
  "insert_sorted cmp x [] = [x]"
| "insert_sorted cmp x (y # ys) =
     (if js_lt (Num 0) (cmp x y) then y # insert_sorted cmp x ys else x # y # ys)"

definition stable_sort :: "'a sorting" where
  "stable_sort cmp xs = foldr (insert_sorted cmp) xs []"
section \<open>Multi-page vision batcher: \<open>createBatches\<close> (lib/groq.js)\<close>

text \<open>
  A page image as the batcher receives it. The partitioning reads only \<open>base64\<close>, as
  \<open>img.base64?.length || 0\<close>, so an image without payload has size 0. The payload is
  base64 text, hence a \<open>string\<close>.
\<close>

record PageImage =
  img_pageNum :: nat
  base64 :: "string option"
  mimeType :: "string option"

text \<open>
  \<open>(img.base64?.length || 0) / 1024 / 1024\<close>. Sizes are exact reals: the division is by a
  power of two and every partial sum is a multiple of \<open>2 ^ -20\<close> far below \<open>2 ^ 53\<close>, so
  the binary64 arithmetic of the source is exact here.
\<close>

definition imgSize :: "PageImage \<Rightarrow> real" where
  "imgSize img = real (case base64 img of None \<Rightarrow> 0 | Some s \<Rightarrow> length s) / 1024 / 1024"

text \<open>
  The \<open>for (const img of images)\<close> loop, its three mutable variables \<open>batches\<close>,
  \<open>currentBatch\<close> and \<open>currentSize\<close> passed as state.
\<close>

fun createBatches_loop ::
  "real \<Rightarrow> int \<Rightarrow> PageImage list \<Rightarrow> PageImage list list \<Rightarrow> PageImage list \<Rightarrow> real
     \<Rightarrow> PageImage list list \<times> PageImage list" where
  "createBatches_loop maxSizeMB maxImages [] batches currentBatch currentSize =
     (batches, currentBatch)"
| "createBatches_loop maxSizeMB maxImages (img # rest) batches currentBatch currentSize =
     (let wouldExceedSize = (currentSize + imgSize img > maxSizeMB \<and> length currentBatch > 0);
          wouldExceedCount = (int (length currentBatch) \<ge> maxImages)
      in if wouldExceedSize \<or> wouldExceedCount
         then createBatches_loop maxSizeMB maxImages rest
                (batches @ [currentBatch]) [img] (0 + imgSize img)
         else createBatches_loop maxSizeMB maxImages rest
                batches (currentBatch @ [img]) (currentSize + imgSize img))"

definition createBatches :: "PageImage list \<Rightarrow> real \<Rightarrow> int \<Rightarrow> PageImage list list" where
  "createBatches images maxSizeMB maxImages =
     (case createBatches_loop maxSizeMB maxImages images [] [] 0 of
        (batches, currentBatch) \<Rightarrow>
          if length currentBatch > 0 then batches @ [currentBatch] else batches)"

text \<open>The total payload of a list of images in MB (\<open>calculateImagesSize\<close>).\<close>

definition calculateImagesSize :: "PageImage list \<Rightarrow> real" where
  "calculateImagesSize images =
     real (foldl (\<lambda>sum img. sum + (case base64 img of None \<Rightarrow> 0 | Some s \<Rightarrow> length s)) 0 images)
       / 1024 / 1024"

text \<open>An image of page \<open>p\<close> whose payload is \<open>n\<close> base64 characters.\<close>

definition image_of_size :: "nat \<Rightarrow> nat \<Rightarrow> PageImage" where
  "image_of_size p n =
     \<lparr>img_pageNum = p, base64 = Some (replicate n (CHR ''A'')), mimeType = None\<rparr>"

section \<open>Vector store and similarity search (lib/db.js)\<close>

text \<open>
  The IndexedDB object stores \<open>documents\<close>, \<open>chunks\<close> and \<open>chatHistory\<close>. Each store is the
  list of its records in key order (\<open>getAll\<close>); the key path is \<open>id\<close>, so the keys of a
  store are distinct. An embedding may be absent on a malformed record; the components of
  an embedding are finite numbers. Timestamps are left out: nothing below reads them.
  The transactions on the database are taken to succeed.
\<close>

record Document =
  doc_id :: nat
  name :: jsstring
  category :: jsstring
  chunkCount :: nat
  embeddingDimension :: nat

record Chunk =
  chunk_id :: nat
  docId :: nat
  content :: jsstring
  embedding :: "real list option"
  fileName :: jsstring
  ocrUsed :: bool

datatype role = User | Assistant

record ChatMessage =
  msg_role :: role
  msg_content :: jsstring

record DB =
  store_documents :: "Document list"
  store_chunks :: "Chunk list"
  store_chatHistory :: "ChatMessage list"

text \<open>A search result: the chunk's fields and its similarity (\<open>{...chunk, similarity}\<close>).\<close>

record ScoredChunk = Chunk +
  similarity :: jsnum

subsection \<open>\<open>cosineSimilarity\<close>\<close>

text \<open>
  The loop over \<open>i\<close>, with the accumulators \<open>dotProduct\<close>, \<open>normA\<close>, \<open>normB\<close>. It runs
  only on vectors of equal length.
\<close>

fun cosine_loop ::
  "rounding \<Rightarrow> real list \<Rightarrow> real list \<Rightarrow> jsnum \<times> jsnum \<times> jsnum \<Rightarrow> jsnum \<times> jsnum \<times> jsnum" where
  "cosine_loop rnd (a # as) (b # bs) (dotProduct, normA, normB) =
     cosine_loop rnd as bs
       (js_add rnd dotProduct (js_mul rnd (Num a) (Num b)),
        js_add rnd normA (js_mul rnd (Num a) (Num a)),
        js_add rnd normB (js_mul rnd (Num b) (Num b)))"
| "cosine_loop rnd _ _ acc = acc"

text \<open>\<open>None\<close> is an absent vector (\<open>null\<close> or \<open>undefined\<close>); an empty array is not absent.\<close>

definition cosineSimilarity :: "rounding \<Rightarrow> real list option \<Rightarrow> real list option \<Rightarrow> jsnum" where
  "cosineSimilarity rnd vecA vecB =
     (case (vecA, vecB) of
        (Some a, Some b) \<Rightarrow>
          if length a \<noteq> length b then Num 0
          else (case cosine_loop rnd a b (Num 0, Num 0, Num 0) of
                  (dotProduct, normA, normB) \<Rightarrow>
                    js_div rnd dotProduct (js_mul rnd (js_sqrt rnd normA) (js_sqrt rnd normB)))
      | _ \<Rightarrow> Num 0)"

subsection \<open>\<open>searchChunks\<close>\<close>

definition with_similarity :: "Chunk \<Rightarrow> jsnum \<Rightarrow> ScoredChunk" where
  "with_similarity chunk s =
     \<lparr>chunk_id = chunk_id chunk, docId = docId chunk, content = content chunk,
      embedding = embedding chunk, fileName = fileName chunk, ocrUsed = ocrUsed chunk,
      similarity = s\<rparr>"

text \<open>
  \<open>filterDocIds\<close> is \<open>None\<close> for \<open>null\<close>. The filter applies only under
  \<open>filterDocIds && filterDocIds.length > 0\<close>. The comparison function of the sort is
  \<open>(a, b) => b.similarity - a.similarity\<close>.
\<close>

definition by_similarity :: "rounding \<Rightarrow> ScoredChunk \<Rightarrow> ScoredChunk \<Rightarrow> jsnum" where
  "by_similarity rnd a b = js_sub rnd (similarity b) (similarity a)"

definition searchChunks ::
  "ScoredChunk sorting \<Rightarrow> rounding \<Rightarrow> DB \<Rightarrow> real list option \<Rightarrow> nat list option \<Rightarrow> int
     \<Rightarrow> ScoredChunk list" where
  "searchChunks engine_sort rnd db queryEmbedding filterDocIds limit =
     (let chunks = store_chunks db;
          chunks = (case filterDocIds of
                      Some ids \<Rightarrow>
                        if length ids > 0 then filter (\<lambda>chunk. docId chunk \<in> set ids) chunks
                        else chunks
                    | None \<Rightarrow> chunks);
          results = map (\<lambda>chunk. with_similarity chunk
                                   (cosineSimilarity rnd queryEmbedding (embedding chunk))) chunks
      in js_slice (engine_sort (by_similarity rnd) results) 0 limit)"

subsection \<open>\<open>deleteDocument\<close>\<close>

text \<open>
  The cursor over the index \<open>docId\<close>, opened on the key range \<open>only(docId)\<close>, visits the
  records of that document; \<open>cursor.delete()\<close> removes the visited record by its primary
  key. The loop runs over the primary keys the cursor visits.
\<close>

fun cursor_delete_loop :: "nat list \<Rightarrow> Chunk list \<Rightarrow> Chunk list" where
  "cursor_delete_loop [] chunks = chunks"
| "cursor_delete_loop (key # keys) chunks =
     cursor_delete_loop keys (filter (\<lambda>c. chunk_id c \<noteq> key) chunks)"

definition deleteDocument :: "DB \<Rightarrow> nat \<Rightarrow> DB" where
  "deleteDocument db d =
     (let documents' = filter (\<lambda>doc. doc_id doc \<noteq> d) (store_documents db);
          visited = map chunk_id (filter (\<lambda>c. docId c = d) (store_chunks db))
      in db\<lparr>store_documents := documents',
            store_chunks := cursor_delete_loop visited (store_chunks db)\<rparr>)"

definition saveChatMessage :: "DB \<Rightarrow> ChatMessage \<Rightarrow> DB" where
  "saveChatMessage db msg = db\<lparr>store_chatHistory := store_chatHistory db @ [msg]\<rparr>"

section \<open>Embedding client (lib/gemini.js)\<close>

text \<open>
  \<open>withRetry(fn, maxRetries)\<close>. The call \<open>fn()\<close> is a remote request; its outcome at the
  \<open>attempt\<close>-th call is given by \<open>fn attempt\<close>. The result carries what the caller sees (the
  value, or the error thrown; \<open>None\<close> is the \<open>undefined\<close> the loop falls through to when
  \<open>maxRetries < 1\<close>), the back-off delays slept in milliseconds, and the number of calls made.
\<close>

definition isRateLimit :: "jserror \<Rightarrow> bool" where
  "isRateLimit error =
     (case error_message error of
        None \<Rightarrow> False
      | Some m \<Rightarrow> js_includes m (ascii ''429'') \<or> js_includes m (ascii ''quota'')
                  \<or> js_includes m (ascii ''rate''))"

function withRetry_loop ::
  "(nat \<Rightarrow> jserror + 'a) \<Rightarrow> int \<Rightarrow> nat \<Rightarrow> nat list \<Rightarrow> (jserror + 'a option) \<times> nat list \<times> nat" where
  "withRetry_loop fn maxRetries attempt sleeps =
     (if int attempt \<le> maxRetries
      then (case fn attempt of
              Inr v \<Rightarrow> (Inr (Some v), sleeps, attempt)
            | Inl error \<Rightarrow>
                if isRateLimit error \<and> int attempt < maxRetries
                then withRetry_loop fn maxRetries (attempt + 1)
                       (sleeps @ [15000 * 2 ^ (attempt - 1)])
                else (Inl error, sleeps, attempt))
      else (Inr None, sleeps, attempt - 1))"
  by pat_completeness auto
termination
  by (relation "measure (\<lambda>(fn, maxRetries, attempt, sleeps). nat (maxRetries - int attempt))") auto

declare withRetry_loop.simps [simp del]

definition withRetry ::
  "(nat \<Rightarrow> jserror + 'a) \<Rightarrow> int \<Rightarrow> (jserror + 'a option) \<times> nat list \<times> nat" where
  "withRetry fn maxRetries = withRetry_loop fn maxRetries 1 []"

text \<open>
  \<open>getEmbedding(text)\<close>: \<open>genAI\<close> is the client (\<open>None\<close> before \<open>initGemini\<close>), \<open>embedContent\<close>
  the remote embedding request by attempt. \<open>waitForRateLimit\<close> only delays the first
  request and is left out. The retry ceiling is the default 3.
\<close>

definition notInitialized :: jserror where
  "notInitialized =
     JsError (Some [71, 101, 109, 105, 110, 105, 32, 26410, 21021, 22987, 21270, 65292, 35531,
                    20808, 36664, 20837, 32, 65, 80, 73, 32, 75, 101, 121])"

definition getEmbedding ::
  "'k option \<Rightarrow> (nat \<Rightarrow> jsstring option \<Rightarrow> jserror + real list) \<Rightarrow> jsstring option
     \<Rightarrow> (jserror + real list option) \<times> nat list \<times> nat" where
  "getEmbedding genAI embedContent text =
     (case genAI of
        None \<Rightarrow> (Inl notInitialized, [], 0)
      | Some _ \<Rightarrow> withRetry (\<lambda>attempt. embedContent attempt text) 3)"

section \<open>Document classifier and hybrid extraction (lib/ocr.js)\<close>

text \<open>
  A loaded PDF document as the code reads it through pdf.js: per page, the strings of the
  text items (\<open>getTextContent().items[i].str\<close>) and the viewport at scale 1.
  \<open>numPages\<close> is the length of the list; \<open>getPage\<close> rejects a page number out of range.
  Loading the document from the file is not part of the model.
\<close>

record PdfPage =
  items :: "jsstring list"
  width :: real
  height :: real

type_synonym PdfDoc = "PdfPage list"

definition getPage :: "PdfDoc \<Rightarrow> int \<Rightarrow> jserror + PdfPage" where
  "getPage pdfDoc i =
     (if 1 \<le> i \<and> i \<le> int (length pdfDoc) then Inr (pdfDoc ! nat (i - 1))
      else Inl (JsError (Some (ascii ''Invalid page request.''))))"

subsection \<open>\<open>detectImageBasedPDF\<close>\<close>

record Detection =
  isImageBased :: bool
  textDensity :: jsnum
  totalTextLength :: nat
  pagesChecked :: int
  confidence :: jsstring

text \<open>
  The loop \<open>for (let i = 1; i <= pagesToCheck; i++)\<close> over the page numbers, with the
  accumulators \<open>totalTextLength\<close> (a character count, exact) and \<open>totalArea\<close>. Local
  variables that share their name with a field of the result carry a prime.
\<close>

fun detect_loop :: "rounding \<Rightarrow> PdfDoc \<Rightarrow> int list \<Rightarrow> nat \<times> jsnum \<Rightarrow> jserror + nat \<times> jsnum" where
  "detect_loop rnd pdfDoc [] acc = Inr acc"
| "detect_loop rnd pdfDoc (i # rest) (totalTextLength', totalArea') =
     (case getPage pdfDoc i of
        Inl e \<Rightarrow> Inl e
      | Inr page \<Rightarrow>
          let pageText = js_join [] (items page)
          in detect_loop rnd pdfDoc rest
               (totalTextLength' + length (filter (\<lambda>c. \<not> is_js_space c) pageText),
                js_add rnd totalArea' (js_mul rnd (Num (width page)) (Num (height page)))))"

definition detectImageBasedPDF :: "rounding \<Rightarrow> PdfDoc \<Rightarrow> int \<Rightarrow> jserror + Detection" where
  "detectImageBasedPDF rnd pdfDoc samplePages =
     (let pagesToCheck = min samplePages (int (length pdfDoc))
      in case detect_loop rnd pdfDoc [1..pagesToCheck] (0, Num 0) of
           Inl e \<Rightarrow> Inl e
         | Inr (totalTextLength', totalArea') \<Rightarrow>
             let textDensity' = js_div rnd (Num (real totalTextLength')) totalArea';
                 isImageBased' = (js_lt textDensity' (rnd (1 / 1000)) \<or> totalTextLength' < 100)
             in Inr \<lparr>isImageBased = isImageBased', textDensity = textDensity',
                     totalTextLength = totalTextLength', pagesChecked = pagesToCheck,
                     confidence = (if isImageBased' then ascii ''high'' else ascii ''low'')\<rparr>)"

subsection \<open>\<open>hybridParsePDF\<close>\<close>

record PageText =
  pageNum :: nat
  ptext :: jsstring
  needsOCR :: bool
  ocrApplied :: bool

record OcrResult =
  ocr_pageNum :: nat
  ocr_text :: jsstring

record HybridStats =
  totalPages :: nat
  textLayerPages :: nat
  ocrPages :: nat

record HybridResult =
  fullText :: jsstring
  pageTexts :: "PageText list"
  stats :: HybridStats

text \<open>The text layer of a page: \<open>content.items.map(item => item.str).join(' ').trim()\<close>.\<close>

definition textLayer :: "PdfPage \<Rightarrow> jsstring" where
  "textLayer page = js_trim (js_join (ascii '' '') (items page))"

text \<open>
  First round: the loop over the pages \<open>i = 1 .. numPages\<close> (here over the page list, \<open>i\<close>
  counted along), filling \<open>pageTexts\<close> and \<open>ocrNeededPages\<close>.
\<close>

fun extract_loop ::
  "PdfPage list \<Rightarrow> nat \<Rightarrow> int \<Rightarrow> PageText list \<times> nat list \<Rightarrow> PageText list \<times> nat list" where
  "extract_loop [] i ocrThreshold acc = acc"
| "extract_loop (page # rest) i ocrThreshold (pageTexts', ocrNeededPages) =
     (if int (length (textLayer page)) < ocrThreshold
      then extract_loop rest (i + 1) ocrThreshold
             (pageTexts' @ [\<lparr>pageNum = i, ptext = [], needsOCR = True, ocrApplied = False\<rparr>],
              ocrNeededPages @ [i])
      else extract_loop rest (i + 1) ocrThreshold
             (pageTexts' @ [\<lparr>pageNum = i, ptext = textLayer page, needsOCR = False,
                            ocrApplied = False\<rparr>],
              ocrNeededPages))"

text \<open>
  \<open>ocrPDFPages\<close>: the pages are rendered and recognised one after the other; \<open>ocr p\<close> is the
  outcome of \<open>renderPageToImage\<close> and \<open>ocrPage\<close> for page \<open>p\<close>, and the first failure is
  thrown to the caller.
\<close>

fun ocrPDFPages :: "(nat \<Rightarrow> jserror + jsstring) \<Rightarrow> nat list \<Rightarrow> jserror + OcrResult list" where
  "ocrPDFPages ocr [] = Inr []"
| "ocrPDFPages ocr (p # ps) =
     (case ocr p of
        Inl e \<Rightarrow> Inl e
      | Inr t \<Rightarrow>
          (case ocrPDFPages ocr ps of
             Inl e \<Rightarrow> Inl e
           | Inr results \<Rightarrow> Inr (\<lparr>ocr_pageNum = p, ocr_text = t\<rparr> # results)))"

text \<open>Second round, the merge: \<open>for (const result of ocrResults)\<close>.\<close>

fun merge_loop :: "OcrResult list \<Rightarrow> PageText list \<Rightarrow> PageText list" where
  "merge_loop [] pageTexts' = pageTexts'"
| "merge_loop (result # rest) pageTexts' =
     merge_loop rest
       (case findIndex (\<lambda>p. pageNum p = ocr_pageNum result) pageTexts' of
          None \<Rightarrow> pageTexts'
        | Some idx \<Rightarrow>
            pageTexts'[idx := (pageTexts' ! idx)\<lparr>ptext := ocr_text result, ocrApplied := True\<rparr>])"

text \<open>A string used as a condition: \<open>null\<close>, \<open>undefined\<close> and the empty string are falsy.\<close>

definition truthy :: "jsstring option \<Rightarrow> bool" where
  "truthy s = (case s of None \<Rightarrow> False | Some v \<Rightarrow> v \<noteq> [])"

definition hybridParsePDF ::
  "PdfDoc \<Rightarrow> jsstring option \<Rightarrow> int \<Rightarrow> int \<Rightarrow> (nat \<Rightarrow> jserror + jsstring)
     \<Rightarrow> jserror + HybridResult" where
  "hybridParsePDF pdfDoc groqApiKey ocrThreshold maxOCRPages ocr =
     (case extract_loop pdfDoc 1 ocrThreshold ([], []) of
        (pageTexts', ocrNeededPages) \<Rightarrow>
          (case (if length ocrNeededPages > 0 \<and> truthy groqApiKey
                 then (case ocrPDFPages ocr (js_slice ocrNeededPages 0 maxOCRPages) of
                         Inl e \<Rightarrow> Inl e
                       | Inr ocrResults \<Rightarrow> Inr (merge_loop ocrResults pageTexts'))
                 else Inr pageTexts') of
             Inl e \<Rightarrow> Inl e
           | Inr merged \<Rightarrow>
               Inr \<lparr>fullText =
                       js_join [10, 10] (map ptext (filter (\<lambda>p. length (ptext p) > 0) merged)),
                     pageTexts = merged,
                     stats = \<lparr>totalPages = length pdfDoc,
                              textLayerPages = length (filter (\<lambda>p. \<not> needsOCR p) merged),
                              ocrPages = length (filter ocrApplied merged)\<rparr>\<rparr>))"


text \<open>
  The record that the first round pushes for page \<open>i\<close>, used to state what the loop
  computes.
\<close>

definition page_record :: "int \<Rightarrow> nat \<Rightarrow> PdfPage \<Rightarrow> PageText" where
  "page_record ocrThreshold i page =
     (if int (length (textLayer page)) < ocrThreshold
      then \<lparr>pageNum = i, ptext = [], needsOCR = True, ocrApplied = False\<rparr>
      else \<lparr>pageNum = i, ptext = textLayer page, needsOCR = False, ocrApplied = False\<rparr>)"

section \<open>Chunking engine: \<open>chunkTextSemantic\<close> (lib/pdf.js)\<close>

text \<open>
  \<open>String.prototype.replace\<close> with a pattern \<open>/c+/g\<close> over a character class and a
  one-character replacement: every maximal run of characters of the class becomes the
  replacement character.
\<close>

function collapse_runs :: "(jschar \<Rightarrow> bool) \<Rightarrow> jschar \<Rightarrow> jsstring \<Rightarrow> jsstring" where
  "collapse_runs p r [] = []"
| "collapse_runs p r (c # cs) =
     (if p c then r # collapse_runs p r (dropWhile p cs) else c # collapse_runs p r cs)"
  by pat_completeness auto
termination
  by (relation "measure (\<lambda>(p, r, s). length s)") (auto simp: length_dropWhile_le less_Suc_eq_le)

text \<open>The sentence terminators of \<open>sentencePattern\<close>: the full-width and ASCII stops and the newline.\<close>

definition is_sentence_end :: "jschar \<Rightarrow> bool" where
  "is_sentence_end c = (c \<in> set [12290, 65281, 65311, 46, 33, 63, 10])"

text \<open>
  \<open>cleanedText.match(sentencePattern)\<close> for the global pattern: a match is a maximal run of
  characters that are not terminators, with the terminator that follows it if there is one; a
  terminator that follows no such run is skipped. The empty list stands for \<open>null\<close>.
\<close>

function match_sentences :: "jsstring \<Rightarrow> jsstring list" where
  "match_sentences [] = []"
| "match_sentences (c # cs) =
     (if is_sentence_end c then match_sentences cs
      else (case dropWhile (\<lambda>x. \<not> is_sentence_end x) cs of
              [] \<Rightarrow> [c # takeWhile (\<lambda>x. \<not> is_sentence_end x) cs]
            | t # rest \<Rightarrow>
                (c # takeWhile (\<lambda>x. \<not> is_sentence_end x) cs @ [t]) # match_sentences rest))"
  by pat_completeness auto
termination
proof (relation "measure length")
  fix c :: jschar and cs t rest
  assume "dropWhile (\<lambda>x. \<not> is_sentence_end x) cs = t # rest"
  then have "length (t # rest) \<le> length cs"
    by (metis length_dropWhile_le)
  then show "(rest, c # cs) \<in> measure length" by simp
qed auto

subsection \<open>\<open>chunkLongSentence\<close>\<close>

definition breakPoints :: "jschar list" where
  "breakPoints = [44, 65292, 59, 65307, 58, 65306, 32]"

text \<open>
  \<open>sentence.lastIndexOf(bp, fromIndex)\<close> for a one-character \<open>bp\<close>: the greatest index not
  above \<open>fromIndex\<close> (clamped into the string) that holds \<open>bp\<close>, or \<open>-1\<close>.
\<close>

definition js_lastIndexOf :: "jsstring \<Rightarrow> jschar \<Rightarrow> int \<Rightarrow> int" where
  "js_lastIndexOf s c fromIndex =
     (case filter (\<lambda>i. s ! i = c) (rev [0..<min (nat (max 0 fromIndex) + 1) (length s)]) of
        [] \<Rightarrow> - 1
      | i # _ \<Rightarrow> int i)"

text \<open>
  The \<open>for (const bp of breakPoints)\<close> loop: the first break character, in the order of the
  list, whose last occurrence up to \<open>end\<close> lies beyond \<open>start + maxSize / 2\<close> moves \<open>end\<close>
  behind that occurrence.
\<close>

fun find_break :: "jsstring \<Rightarrow> int \<Rightarrow> int \<Rightarrow> int \<Rightarrow> jschar list \<Rightarrow> int" where
  "find_break sentence maxSize start end' [] = end'"
| "find_break sentence maxSize start end' (bp # bps) =
     (let lastBreak = js_lastIndexOf sentence bp end'
      in if real_of_int lastBreak > real_of_int start + real_of_int maxSize / 2
         then lastBreak + 1
         else find_break sentence maxSize start end' bps)"

text \<open>
  The \<open>while (start < sentence.length)\<close> loop. It need not end (\<open>start\<close> advances by
  \<open>end - 50 - start\<close>, which is not positive for a small \<open>maxSize\<close>); not returning is
  \<open>None\<close>.
\<close>

partial_function (option) chunkLongSentence_loop ::
  "jsstring \<Rightarrow> int \<Rightarrow> int \<Rightarrow> jsstring list \<Rightarrow> jsstring list option" where
  "chunkLongSentence_loop sentence maxSize start chunks =
     (if start < int (length sentence)
      then chunkLongSentence_loop sentence maxSize
             ((if start + maxSize < int (length sentence)
               then find_break sentence maxSize start (start + maxSize) breakPoints
               else start + maxSize) - 50)
             (chunks @ [js_trim (js_substring sentence start
                          (if start + maxSize < int (length sentence)
                           then find_break sentence maxSize start (start + maxSize) breakPoints
                           else start + maxSize))])
      else Some chunks)"

declare chunkLongSentence_loop.simps [code]

definition chunkLongSentence :: "jsstring \<Rightarrow> int \<Rightarrow> jsstring list option" where
  "chunkLongSentence sentence maxSize = chunkLongSentence_loop sentence maxSize 0 []"

subsection \<open>\<open>chunkTextSemantic\<close>\<close>

text \<open>
  The loop over the sentences with its state \<open>chunks\<close>, \<open>currentChunk\<close>, \<open>currentLength\<close>;
  the result is the state at the end of the loop, \<open>None\<close> if a forced split does not return.
\<close>

fun chunk_loop ::
  "int \<Rightarrow> int \<Rightarrow> jsstring list \<Rightarrow> jsstring list \<Rightarrow> jsstring list \<Rightarrow> int
     \<Rightarrow> (jsstring list \<times> jsstring list) option" where
  "chunk_loop maxSize overlapSentences [] chunks currentChunk currentLength =
     Some (chunks, currentChunk)"
| "chunk_loop maxSize overlapSentences (s # rest) chunks currentChunk currentLength =
     (let sentence = js_trim s; sentenceLength = int (length sentence)
      in if sentence = [] then
           chunk_loop maxSize overlapSentences rest chunks currentChunk currentLength
         else if sentenceLength > maxSize then
           (case chunkLongSentence sentence maxSize of
              None \<Rightarrow> None
            | Some subChunks \<Rightarrow>
                if length currentChunk > 0
                then chunk_loop maxSize overlapSentences rest
                       ((chunks @ [js_join [32] currentChunk]) @ subChunks) [] 0
                else chunk_loop maxSize overlapSentences rest
                       (chunks @ subChunks) currentChunk currentLength)
         else if currentLength + sentenceLength > maxSize \<and> length currentChunk > 0 then
           (let overlapStart = max 0 (int (length currentChunk) - overlapSentences);
                kept = drop (nat overlapStart) currentChunk
            in chunk_loop maxSize overlapSentences rest
                 (chunks @ [js_join [32] currentChunk]) (kept @ [sentence])
                 (foldl (\<lambda>sum s. sum + int (length s)) 0 kept + sentenceLength))
         else
           chunk_loop maxSize overlapSentences rest chunks (currentChunk @ [sentence])
             (currentLength + sentenceLength))"

definition chunkTextSemantic :: "jsstring \<Rightarrow> int \<Rightarrow> int \<Rightarrow> jsstring list option" where
  "chunkTextSemantic text' maxSize overlapSentences =
     (let cleanedText =
            js_trim (collapse_runs (\<lambda>c. c = 10) 10 (collapse_runs is_js_space 32 text'))
      in if cleanedText = [] then Some []
         else
           let sentences = (case match_sentences cleanedText of
                              [] \<Rightarrow> [cleanedText]
                            | m # ms \<Rightarrow> m # ms)
           in case chunk_loop maxSize overlapSentences sentences [] [] 0 of
                None \<Rightarrow> None
              | Some (chunks, currentChunk) \<Rightarrow>
                  Some (filter (\<lambda>chunk. length (js_trim chunk) > 50)
                          (if length currentChunk > 0
                           then chunks @ [js_join [32] currentChunk]
                           else chunks)))"

section \<open>Conversational orchestrator: \<open>handleSendMessage\<close> (App.jsx)\<close>

text \<open>
  The parsed answer of the intent analysis; a field that the model left out is \<open>None\<close>.
\<close>

record Intent =
  intent_type :: "jsstring option"
  newQuery :: "jsstring option"

text \<open>
  The remote services of one turn: the outcome of \<open>analyzeQueryIntent\<close> (which falls back to
  a search intent by itself; \<open>Inl\<close> is the error of reading \<open>type\<close> from a parsed \<open>null\<close>), the
  embedding client and its remote request, and the outcome of \<open>chatWithGroq\<close>, the
  answer-generation call.
\<close>

record Services =
  svc_analyzeQueryIntent :: "jsstring \<Rightarrow> ChatMessage list \<Rightarrow> jserror + Intent"
  svc_genAI :: "unit option"
  svc_embedContent :: "nat \<Rightarrow> jsstring option \<Rightarrow> jserror + real list"
  svc_chatWithGroq :: "jsstring \<Rightarrow> ScoredChunk list \<Rightarrow> ChatMessage list \<Rightarrow> jserror + jsstring"

datatype call = IntentCall | EmbedCall | SearchCall | GenerateCall

datatype status_type = Info | Success | Error

text \<open>
  The state of the component (the \<open>useState\<close> cells the handler reads or writes), the
  database, and the log of the service calls made, which the code does not keep and which is
  added to state what was called. The message of the status is \<open>None\<close> when it is
  \<open>undefined\<close>.
\<close>

record AppState =
  documents :: "Document list"
  selectedCategories :: "jsstring list"
  chatHistory :: "ChatMessage list"
  inputMessage :: jsstring
  lastChunks :: "ScoredChunk list"
  isProcessing :: bool
  status :: "status_type \<times> jsstring option"
  similarityThreshold :: real
  store :: DB
  calls :: "call list"

definition noResultMsg :: ChatMessage where
  "noResultMsg =
     \<lparr>msg_role = Assistant,
      msg_content = [30693, 35672, 24235, 20013, 28961, 30456, 38364, 36039, 35338, 12290, 35531,
                     22039, 35430, 25563, 20491, 21839, 27861, 25110, 19978, 20659, 30456, 38364,
                     25991, 20214, 12290]\<rparr>"

definition status_processing :: jsstring where
  "status_processing = [76, 108, 97, 109, 97, 32, 52, 32, 34389, 29702, 20013, 46, 46, 46]"

definition status_embedding :: jsstring where
  "status_embedding = [21521, 37327, 21270, 26597, 35426, 46, 46, 46]"

definition status_generating :: jsstring where
  "status_generating = [76, 108, 97, 109, 97, 32, 52, 32, 29983, 25104, 22238, 31572, 46, 46, 46]"

definition status_ready :: jsstring where
  "status_ready = [23601, 32210]"

text \<open>The message of an error inside a template literal: \<open>undefined\<close> is spelled out.\<close>

definition error_text :: "jserror \<Rightarrow> jsstring" where
  "error_text err = (case error_message err of None \<Rightarrow> ascii ''undefined'' | Some m \<Rightarrow> m)"

text \<open>
  The tail of the \<open>try\<close> block, from \<open>setStatus(... 'Llama 4 ...')\<close> on: the generation call.
  \<open>history\<close> is the \<open>chatHistory\<close> the handler closed over. The result is the state reached
  and the error thrown, if any.
\<close>

definition generate ::
  "Services \<Rightarrow> AppState \<Rightarrow> jsstring \<Rightarrow> ScoredChunk list \<Rightarrow> ChatMessage list
     \<Rightarrow> AppState \<times> jserror option" where
  "generate svc st prompt chunks history =
     (let st = st\<lparr>status := (Info, Some status_generating), calls := calls st @ [GenerateCall]\<rparr>
      in case svc_chatWithGroq svc prompt chunks history of
           Inl err \<Rightarrow> (st, Some err)
         | Inr aiResponse \<Rightarrow>
             let assistantMessage = \<lparr>msg_role = Assistant, msg_content = aiResponse\<rparr>
             in (st\<lparr>chatHistory := chatHistory st @ [assistantMessage],
                     store := saveChatMessage (store st) assistantMessage,
                     status := (Info, Some status_ready)\<rparr>, None))"

text \<open>
  The \<open>try\<close> block. \<open>st0\<close> is the state the handler closed over (its \<open>chatHistory\<close>,
  \<open>lastChunks\<close>, \<open>documents\<close>, \<open>selectedCategories\<close> and \<open>similarityThreshold\<close>), \<open>st\<close> the
  state after the user message has been added.
\<close>

definition try_block ::
  "ScoredChunk sorting \<Rightarrow> rounding \<Rightarrow> Services \<Rightarrow> AppState \<Rightarrow> AppState \<Rightarrow> jsstring
     \<Rightarrow> AppState \<times> jserror option" where
  "try_block engine_sort rnd svc st0 st message =
     (let st = st\<lparr>calls := calls st @ [IntentCall]\<rparr>
      in case svc_analyzeQueryIntent svc message (chatHistory st0) of
           Inl err \<Rightarrow> (st, Some err)
         | Inr intent \<Rightarrow>
             let prompt = (if truthy (newQuery intent) then the (newQuery intent) else message)
             in if intent_type intent = Some (ascii ''search'')
                then
                  let filterIds =
                        (if length (selectedCategories st0) > 0
                         then Some (map doc_id
                                (filter (\<lambda>d. category d \<in> set (selectedCategories st0))
                                   (documents st0)))
                         else None);
                      st = st\<lparr>status := (Info, Some status_embedding), calls := calls st @ [EmbedCall]\<rparr>
                  in case fst (getEmbedding (svc_genAI svc) (svc_embedContent svc) (newQuery intent)) of
                       Inl err \<Rightarrow> (st, Some err)
                     | Inr vec \<Rightarrow>
                         let results = searchChunks engine_sort rnd (store st) vec filterIds 5;
                             st = st\<lparr>calls := calls st @ [SearchCall]\<rparr>
                         in if (case results of
                                  [] \<Rightarrow> True
                                | result0 # _ \<Rightarrow>
                                    js_lt (similarity result0) (Num (similarityThreshold st0)))
                            then (st\<lparr>chatHistory := chatHistory st @ [noResultMsg],
                                      store := saveChatMessage (store st) noResultMsg,
                                      status := (Info, Some status_ready),
                                      isProcessing := False\<rparr>, None)
                            else generate svc (st\<lparr>lastChunks := results\<rparr>) prompt results
                                   (chatHistory st0)
                else generate svc st prompt (lastChunks st0) (chatHistory st0))"

definition handleSendMessage ::
  "ScoredChunk sorting \<Rightarrow> rounding \<Rightarrow> Services \<Rightarrow> AppState \<Rightarrow> jsstring \<Rightarrow> AppState" where
  "handleSendMessage engine_sort rnd svc st0 message =
     (if js_trim message = [] \<or> isProcessing st0 then st0
      else
        let userMessage = \<lparr>msg_role = User, msg_content = message\<rparr>;
            st = st0\<lparr>inputMessage := [],
                     chatHistory := chatHistory st0 @ [userMessage],
                     store := saveChatMessage (store st0) userMessage,
                     isProcessing := True,
                     status := (Info, Some status_processing)\<rparr>
        in case try_block engine_sort rnd svc st0 st message of
             (st, None) \<Rightarrow> st\<lparr>isProcessing := False\<rparr>
           | (st, Some err) \<Rightarrow>
               st\<lparr>chatHistory :=
                     chatHistory st
                       @ [\<lparr>msg_role = Assistant,
                            msg_content = [37679, 35492, 58, 32] @ error_text err\<rparr>],
                   status := (Error, error_message err),
                   isProcessing := False\<rparr>)"

section \<open>Concrete inputs\<close>

text \<open>
  A store of three chunks, of documents 1, 2 and 1, with embeddings of dimension 4, and the
  query vector \<open>[1, 0, 0, 0]\<close>: the similarities are 0.2, 0 and 0.
\<close>

definition example_chunk :: "nat \<Rightarrow> nat \<Rightarrow> real list \<Rightarrow> Chunk" where
  "example_chunk i d v =
     \<lparr>chunk_id = i, docId = d, content = ascii ''text'', embedding = Some v,
      fileName = ascii ''a.pdf'', ocrUsed = False\<rparr>"

definition example_db :: DB where
  "example_db =
     \<lparr>store_documents =
        [\<lparr>doc_id = 1, name = ascii ''a.pdf'', category = ascii ''A'', chunkCount = 2,
          embeddingDimension = 4\<rparr>,
         \<lparr>doc_id = 2, name = ascii ''b.pdf'', category = ascii ''B'', chunkCount = 1,
          embeddingDimension = 4\<rparr>],
      store_chunks =
        [example_chunk 1 1 [1, 4, 2, 2], example_chunk 2 2 [0, 1, 0, 0],
         example_chunk 3 1 [0, 0, 3, 4]],
      store_chatHistory = []\<rparr>"

text \<open>
  Two embedding services: one that answers every request with a rate-limit failure, one
  that fails every request for another reason.
\<close>

definition rate_limited_error :: jserror where
  "rate_limited_error = JsError (Some (ascii ''429 Too Many Requests''))"

definition network_error :: jserror where
  "network_error = JsError (Some (ascii ''Failed to fetch''))"

definition always_rate_limited :: "nat \<Rightarrow> jsstring option \<Rightarrow> jserror + real list" where
  "always_rate_limited attempt text = Inl rate_limited_error"

definition always_down :: "nat \<Rightarrow> jsstring option \<Rightarrow> jserror + real list" where
  "always_down attempt text = Inl network_error"

text \<open>
  A text PDF of three A4 pages with 1000 characters each in one text item, and an OCR
  service that fails whenever it is called.
\<close>

definition text_page :: PdfPage where
  "text_page = \<lparr>items = [replicate 1000 97], width = 595, height = 842\<rparr>"

definition text_pdf :: PdfDoc where
  "text_pdf = [text_page, text_page, text_page]"

definition failing_ocr :: "nat \<Rightarrow> jserror + jsstring" where
  "failing_ocr p = Inl network_error"

text \<open>
  A turn of the chat: no category selected, the threshold at its default 0.25, an intent
  analysis that asks for a search with the query as it is, an embedding service that
  returns the query vector \<open>[1, 0, 0, 0]\<close>, and a generation service.
\<close>

definition example_query :: jsstring where
  "example_query = ascii ''What is the warranty period?''"

definition example_state :: AppState where
  "example_state =
     \<lparr>documents = store_documents example_db, selectedCategories = [], chatHistory = [],
      inputMessage = [], lastChunks = [], isProcessing = False,
      status = (Info, Some status_ready), similarityThreshold = 1 / 4, store = example_db,
      calls = []\<rparr>"

definition example_services :: Services where
  "example_services =
     \<lparr>svc_analyzeQueryIntent =
        (\<lambda>query history. Inr \<lparr>intent_type = Some (ascii ''search''), newQuery = Some query\<rparr>),
      svc_genAI = Some (),
      svc_embedContent = (\<lambda>attempt text. Inr [1, 0, 0, 0]),
      svc_chatWithGroq = (\<lambda>prompt chunks history. Inr (ascii ''answer''))\<rparr>"

text \<open>
  A text of three sentences of 50, 49 and 48 characters, 149 characters in all.
\<close>

definition warranty_text :: jsstring where
  "warranty_text = ascii (''The warranty covers parts and labour for one year. ''
     @ ''Claims are filed through the online service desk. ''
     @ ''Refunds are paid within thirty days of approval.'')"

text \<open>
  A sentence of 400 characters (399 letters and a full stop) and a text of three such
  sentences separated by single spaces, 1202 characters in all.
\<close>

definition long_sentence :: jsstring where
  "long_sentence = replicate 399 97 @ [46]"

definition long_text :: jsstring where
  "long_text = long_sentence @ [32] @ long_sentence @ [32] @ long_sentence"

text \<open>
  A sentence of 120 characters without a terminator, with its only break character, a
  comma, at index 100.
\<close>

definition comma_sentence :: jsstring where
  "comma_sentence = replicate 100 97 @ [44] @ replicate 19 97"

section \<open>Properties of \<open>createBatches\<close>\<close>

lemma createBatches_loop_concat:
  "createBatches_loop ms mi imgs batches cur sz = (bs, c) \<Longrightarrow>
     concat bs @ c = concat batches @ cur @ imgs"
proof (induction imgs arbitrary: batches cur sz)
  case Nil
  then show ?case by simp
next
  case (Cons img rest)
  then show ?case
    by (simp add: Let_def split: if_splits)
qed

text \<open>
  C6. The concatenation of the batches, in batch order, is exactly the input list, for every
  size ceiling and count ceiling: every image once, in its original order.
\<close>

theorem createBatches_concat:
  "concat (createBatches images maxSizeMB maxImages) = images"
proof -
  obtain bs c where r: "createBatches_loop maxSizeMB maxImages images [] [] 0 = (bs, c)"
    by (cases "createBatches_loop maxSizeMB maxImages images [] [] 0") auto
  from createBatches_loop_concat [OF r] have "concat bs @ c = images" by simp
  with r show ?thesis by (auto simp: createBatches_def)
qed

lemma payload_foldl_shift:
  "foldl (\<lambda>sum img. sum + (case base64 img of None \<Rightarrow> 0 | Some s \<Rightarrow> length s)) a xs =
     a + foldl (\<lambda>sum img. sum + (case base64 img of None \<Rightarrow> 0 | Some s \<Rightarrow> length s)) 0 xs"
proof (induction xs arbitrary: a)
  case Nil
  show ?case by simp
next
  case (Cons x xs)
  show ?case
    using Cons.IH [of "a + (case base64 x of None \<Rightarrow> 0 | Some s \<Rightarrow> length s)"]
          Cons.IH [of "0 + (case base64 x of None \<Rightarrow> 0 | Some s \<Rightarrow> length s)"]
    by simp
qed

lemma calculateImagesSize_Nil: "calculateImagesSize [] = 0"
  by (simp add: calculateImagesSize_def)

lemma calculateImagesSize_snoc:
  "calculateImagesSize (xs @ [img]) = calculateImagesSize xs + imgSize img"
  by (simp add: calculateImagesSize_def imgSize_def add_divide_distrib)

lemma calculateImagesSize_single: "calculateImagesSize [img] = imgSize img"
  using calculateImagesSize_snoc [of "[]" img] by (simp add: calculateImagesSize_Nil)

lemma imgSize_image_of_size: "imgSize (image_of_size p n) = real n / 1024 / 1024"
  by (simp add: imgSize_def image_of_size_def)

lemma createBatches_loop_limits:
  assumes "createBatches_loop ms mi imgs batches cur sz = (bs, c)"
    and "\<And>b. b \<in> set batches \<Longrightarrow>
            int (length b) \<le> max 1 mi \<and> (calculateImagesSize b \<le> ms \<or> length b \<le> 1)"
    and "int (length cur) \<le> max 1 mi"
    and "calculateImagesSize cur \<le> ms \<or> length cur \<le> 1"
    and "sz = calculateImagesSize cur"
    and "b \<in> set bs \<or> b = c"
  shows "int (length b) \<le> max 1 mi \<and> (calculateImagesSize b \<le> ms \<or> length b \<le> 1)"
  using assms
proof (induction imgs arbitrary: batches cur sz)
  case Nil
  then show ?case by auto
next
  case (Cons img rest)
  show ?case
  proof (cases "(sz + imgSize img > ms \<and> length cur > 0) \<or> int (length cur) \<ge> mi")
    case True
    with Cons.prems(1) have r:
      "createBatches_loop ms mi rest (batches @ [cur]) [img] (0 + imgSize img) = (bs, c)"
      by (simp add: Let_def)
    show ?thesis
    proof (rule Cons.IH [OF r])
      fix b' assume "b' \<in> set (batches @ [cur])"
      then show "int (length b') \<le> max 1 mi \<and> (calculateImagesSize b' \<le> ms \<or> length b' \<le> 1)"
        using Cons.prems(2,3,4) by auto
    qed (use Cons.prems(6) in \<open>simp_all add: calculateImagesSize_single\<close>)
  next
    case False
    with Cons.prems(1) have r:
      "createBatches_loop ms mi rest batches (cur @ [img]) (sz + imgSize img) = (bs, c)"
      by (auto simp add: Let_def split: if_splits)
    show ?thesis
    proof (rule Cons.IH [OF r])
      show "int (length (cur @ [img])) \<le> max 1 mi"
        using False by simp
      show "calculateImagesSize (cur @ [img]) \<le> ms \<or> length (cur @ [img]) \<le> 1"
        using False Cons.prems(5) by (auto simp: calculateImagesSize_snoc)
      show "sz + imgSize img = calculateImagesSize (cur @ [img])"
        using Cons.prems(5) by (simp add: calculateImagesSize_snoc)
    qed (use Cons.prems(2,6) in auto)
  qed
qed

text \<open>
  C5, as the code has it. Every batch holds at most \<open>max 1 maxImages\<close> images, and its total
  payload is within \<open>maxSizeMB\<close> unless it holds a single image (an over-limit image gets a
  batch of its own, by the guard \<open>currentBatch.length > 0\<close>) or none.
\<close>

theorem createBatches_limits:
  assumes "batch \<in> set (createBatches images maxSizeMB maxImages)"
  shows "int (length batch) \<le> max 1 maxImages \<and>
         (calculateImagesSize batch \<le> maxSizeMB \<or> length batch \<le> 1)"
proof -
  obtain bs c where r: "createBatches_loop maxSizeMB maxImages images [] [] 0 = (bs, c)"
    by (cases "createBatches_loop maxSizeMB maxImages images [] [] 0") auto
  from assms r have m: "batch \<in> set bs \<or> batch = c"
    by (auto simp: createBatches_def split: if_splits)
  show ?thesis
  proof (rule createBatches_loop_limits [OF r])
    show "batch \<in> set bs \<or> batch = c" by (fact m)
  qed (simp_all add: calculateImagesSize_Nil)
qed

theorem createBatches_limits_witness:
  "[image_of_size 1 1048576, image_of_size 2 1048576]
     \<in> set (createBatches
              [image_of_size 1 1048576, image_of_size 2 1048576, image_of_size 3 1572864] 3 5)
   \<and> int (length [image_of_size 1 1048576, image_of_size 2 1048576]) \<le> max 1 5
   \<and> calculateImagesSize [image_of_size 1 1048576, image_of_size 2 1048576] \<le> 3"
proof -
  have m: "[image_of_size 1 1048576, image_of_size 2 1048576]
     \<in> set (createBatches
              [image_of_size 1 1048576, image_of_size 2 1048576, image_of_size 3 1572864] 3 5)"
    by (simp add: createBatches_def imgSize_image_of_size)
  have s: "\<not> length [image_of_size 1 1048576, image_of_size 2 1048576] \<le> 1"
    by simp
  show ?thesis
    using createBatches_limits [OF m] m s by simp
qed

text \<open>
  The claim as stated fails on both ceilings. With the default ceilings a single image of
  4 MB forms a batch of 4 MB, above the ceiling of 3 MB. With \<open>maxImages = 0\<close> every image
  forms a batch of one image, above the count ceiling (after an empty first batch).
\<close>

theorem createBatches_limits_counterexample:
  "createBatches [image_of_size 1 4194304] 3 5 = [ [image_of_size 1 4194304] ]
   \<and> calculateImagesSize [image_of_size 1 4194304] = 4
   \<and> \<not> calculateImagesSize [image_of_size 1 4194304] \<le> 3
   \<and> createBatches [image_of_size 1 10, image_of_size 2 10] 3 0
         = [ [], [image_of_size 1 10], [image_of_size 2 10] ]
   \<and> \<not> int (length [image_of_size 1 10]) \<le> 0"
  by (simp add: createBatches_def imgSize_image_of_size calculateImagesSize_single)

text \<open>
  The scenario of the specification: 12 page images of 0.4 MB each (419430 base64
  characters) under the default ceilings give batches of 5, 5 and 2 images.
\<close>

lemma createBatches_scenario:
  "map length
     (createBatches (map (\<lambda>p. image_of_size p 419430) [1, 2, 3, 4, 5, 6, 7, 8, 9, 10, 11, 12]) 3 5)
     = [5, 5, 2]"
  by (simp add: createBatches_def imgSize_image_of_size)

section \<open>Properties of \<open>cosineSimilarity\<close>\<close>

lemma js_mul_commute: "js_mul rnd x y = js_mul rnd y x"
  by (cases x; cases y) (simp_all add: mult.commute)

lemma cosine_loop_swap:
  "cosine_loop rnd a b (d, p, q) = (d', p', q') \<Longrightarrow> cosine_loop rnd b a (d, q, p) = (d', q', p')"
proof (induction rnd a b "(d, p, q)" arbitrary: d p q rule: cosine_loop.induct)
  case (1 rnd a as b bs dotProduct normA normB)
  then show ?case by (simp add: mult.commute [of b a])
qed auto

lemma cosineSimilarity_sym: "cosineSimilarity rnd vecA vecB = cosineSimilarity rnd vecB vecA"
proof (cases vecA; cases vecB)
  fix a b assume ab: "vecA = Some a" "vecB = Some b"
  obtain d p q where r: "cosine_loop rnd a b (Num 0, Num 0, Num 0) = (d, p, q)"
    by (cases "cosine_loop rnd a b (Num 0, Num 0, Num 0)") auto
  from cosine_loop_swap [OF r] r ab show ?thesis
    by (auto simp: cosineSimilarity_def js_mul_commute [of rnd "js_sqrt rnd q"])
qed (simp_all add: cosineSimilarity_def)

lemma cosine_loop_exact:
  "length a = length b \<Longrightarrow>
   cosine_loop Num a b (Num d, Num p, Num q) =
     (Num (d + (\<Sum>(x, y)\<leftarrow>zip a b. x * y)), Num (p + (\<Sum>x\<leftarrow>a. x * x)), Num (q + (\<Sum>y\<leftarrow>b. y * y)))"
proof (induction a b arbitrary: d p q rule: list_induct2)
  case Nil
  show ?case by simp
next
  case (Cons x xs y ys)
  show ?case by (simp add: Cons.IH add.assoc)
qed

lemma sum_squares_pos:
  "\<exists>x\<in>set a. x \<noteq> (0::real) \<Longrightarrow> 0 < (\<Sum>x\<leftarrow>a. x * x)"
proof (induction a)
  case Nil
  then show ?case by simp
next
  case (Cons x xs)
  have nn: "0 \<le> (\<Sum>x\<leftarrow>xs. x * x)" by (rule sum_list_nonneg) auto
  show ?case
  proof (cases "x = 0")
    case True
    with Cons show ?thesis by auto
  next
    case False
    then have "0 < x * x" by (simp add: zero_less_mult_iff less_le not_le)
    with nn show ?thesis by simp
  qed
qed

lemma zip_same_sum: "(\<Sum>(x, y)\<leftarrow>zip a a. x * y) = (\<Sum>x\<leftarrow>a. x * (x::real))"
  by (induction a) auto

lemma cosineSimilarity_self_exact:
  assumes "\<exists>x\<in>set a. x \<noteq> 0"
  shows "cosineSimilarity Num (Some a) (Some a) = Num 1"
proof -
  have "0 < (\<Sum>x\<leftarrow>a. x * x)" using assms by (rule sum_squares_pos)
  then show ?thesis
    using cosine_loop_exact [of a a 0 0 0]
    by (simp add: cosineSimilarity_def zip_same_sum)
qed

lemma round_half_even_eq:
  "of_int m - 1 / 2 < r \<Longrightarrow> r < of_int m + 1 / 2 \<Longrightarrow> round_half_even r = m"
proof -
  assume a: "of_int m - 1 / 2 < r" "r < of_int m + 1 / 2"
  have "\<lfloor>r\<rfloor> = m \<or> \<lfloor>r\<rfloor> = m - 1" using a by linarith
  then show ?thesis
  proof
    assume f: "\<lfloor>r\<rfloor> = m"
    with a show ?thesis by (simp add: round_half_even_def Let_def)
  next
    assume f: "\<lfloor>r\<rfloor> = m - 1"
    with a show ?thesis by (auto simp add: round_half_even_def Let_def)
  qed
qed

lemma f64_eq:
  assumes "0 < x" and "- 1022 \<le> e"
    and "2 powr of_int e \<le> x" and "x < 2 powr (of_int e + 1)"
    and "q = 2 powr (of_int e - 52)"
    and "of_int m - 1 / 2 < x / q" and "x / q < of_int m + 1 / 2"
    and "of_int m * q < 2 powr 1024"
  shows "f64 x = Num (of_int m * q)"
proof -
  have fl: "\<lfloor>log 2 \<bar>x\<bar>\<rfloor> = e"
    using assms(1,3,4) by (simp add: floor_log_eq_powr_iff)
  have mx: "max e (- 1022) = e" using assms(2) by simp
  have rd: "round_half_even (\<bar>x\<bar> / q) = m"
    using assms(1,6,7) by (simp add: round_half_even_eq)
  show ?thesis
    using assms(1,5,8) rd unfolding f64_def fl mx Let_def
    by simp
qed

lemma f64_1: "f64 1 = Num 1"
  using f64_eq [of 1 0 "1 / 2 ^ 52" "2 ^ 52"]
  by (simp add: powr_minus divide_simps)

lemma f64_2: "f64 2 = Num 2"
  using f64_eq [of 2 1 "1 / 2 ^ 51" "2 ^ 52"]
  by (simp add: powr_minus divide_simps)

lemma f64_sqrt2: "f64 (sqrt 2) = Num (6369051672525773 / 2 ^ 52)"
proof -
  have lo: "(6369051672525773 - 1 / 2) / 2 ^ 52 < sqrt 2"
    by (rule real_less_rsqrt) (simp add: power2_eq_square)
  have hi: "sqrt 2 < (6369051672525773 + 1 / 2) / 2 ^ 52"
    by (rule real_less_lsqrt) (simp_all add: power2_eq_square)
  have one: "1 \<le> sqrt 2" by simp
  have two: "sqrt 2 < 2" by (rule real_less_lsqrt) simp_all
  show ?thesis
    using f64_eq [of "sqrt 2" 0 "1 / 2 ^ 52" 6369051672525773] lo hi one two
    by (simp add: powr_minus divide_simps)
qed

lemma f64_sq: "f64 (6369051672525773 / 2 ^ 52 * (6369051672525773 / 2 ^ 52)) = Num (4503599627370497 / 2 ^ 51)"
  using f64_eq [of "6369051672525773 / 2 ^ 52 * (6369051672525773 / 2 ^ 52)" 1 "1 / 2 ^ 51" 4503599627370497]
  by (simp add: powr_minus divide_simps)

lemma f64_quot: "f64 (2 / (4503599627370497 / 2 ^ 51)) = Num (9007199254740990 / 2 ^ 53)"
  using f64_eq [of "2 / (4503599627370497 / 2 ^ 51)" "- 1" "1 / 2 ^ 53" 9007199254740990]
  by (simp add: powr_minus divide_simps)

lemma cosineSimilarity_f64_unit2: "cosineSimilarity f64 (Some [1, 1]) (Some [1, 1]) = Num (1 - 1 / 2 ^ 52)"
proof -
  define r :: real where "r = 6369051672525773 / 2 ^ 52"
  define p :: real where "p = 4503599627370497 / 2 ^ 51"
  have loop: "cosine_loop f64 [1, 1] [1, 1] (Num 0, Num 0, Num 0) = (Num 2, Num 2, Num 2)"
    by (simp add: f64_1 f64_2)
  have root: "js_sqrt f64 (Num 2) = Num r"
    by (simp add: f64_sqrt2 r_def)
  have prod: "js_mul f64 (Num r) (Num r) = Num p"
    unfolding r_def p_def js_mul.simps by (rule f64_sq)
  have "p \<noteq> 0" by (simp add: p_def)
  then have quot: "js_div f64 (Num 2) (Num p) = Num (9007199254740990 / 2 ^ 53)"
    using f64_quot by (simp only: js_div.simps p_def if_False)
  have "cosineSimilarity f64 (Some [1, 1]) (Some [1, 1]) = js_div f64 (Num 2) (Num p)"
    by (simp only: cosineSimilarity_def loop root prod option.case prod.case list.size if_False simp_thms)
  with quot show ?thesis by simp
qed

lemma round_half_even_err: "\<bar>of_int (round_half_even r) - r\<bar> \<le> 1 / 2"
proof -
  have "of_int \<lfloor>r\<rfloor> \<le> r" "r < of_int \<lfloor>r\<rfloor> + 1" by linarith+
  then show ?thesis
    by (auto simp add: round_half_even_def Let_def)
qed

lemma f64_0: "f64 0 = Num 0"
  by (simp add: f64_def)

lemma f64_underflow:
  assumes "0 < x" and "x < 2 powr (- 1075)"
  shows "f64 x = Num 0"
proof -
  have "log 2 x < - 1075"
    using assms by (simp add: log_less_iff)
  then have "\<lfloor>log 2 \<bar>x\<bar>\<rfloor> \<le> - 1022" using assms(1) by (simp add: floor_le_iff)
  then have mx: "max \<lfloor>log 2 \<bar>x\<bar>\<rfloor> (- 1022) = - 1022" by simp
  have "2 powr (- 1075) = 2 powr (- 1074) / (2::real)"
    by (simp add: powr_diff [of 2 "- 1074" 1, simplified])
  then have "x / 2 powr (- 1074) < 1 / 2"
    using assms by (simp add: divide_simps)
  moreover have "0 < x / 2 powr (- 1074)" using assms(1) by simp
  ultimately have "round_half_even (x / 2 powr (- 1074)) = 0"
    by (intro round_half_even_eq) simp_all
  then have rd: "round_half_even (\<bar>x\<bar> / 2 powr (- 1074)) = 0"
    using assms(1) by simp
  show ?thesis
    using assms(1) rd unfolding f64_def mx Let_def by simp
qed

lemma f64_rel:
  fixes x :: real
  assumes lo: "2 powr (- 1022) \<le> x" and hi: "x \<le> 2 powr 1023"
  shows "\<exists>y. f64 x = Num y \<and> \<bar>y - x\<bar> \<le> x / 2 ^ 53"
proof -
  have x0: "0 < x" using lo by (rule less_le_trans [rotated]) simp
  define e where "e = \<lfloor>log 2 x\<rfloor>"
  have e1: "2 powr of_int e \<le> x" and e2: "x < 2 powr (of_int e + 1)"
    using x0 floor_log_eq_powr_iff [of x 2 e] by (simp_all add: e_def)
  have "- 1022 \<le> log 2 x" using lo x0 by (simp add: le_log_iff)
  then have ege: "- 1022 \<le> e" by (simp add: e_def le_floor_iff)
  define q :: real where "q = 2 powr (of_int e - 52)"
  have q0: "0 < q" by (simp add: q_def)
  have qe: "q = 2 powr of_int e / 2 ^ 52"
    by (simp add: q_def powr_diff)
  define m where "m = round_half_even (x / q)"
  have "\<bar>of_int m - x / q\<bar> \<le> 1 / 2" unfolding m_def by (rule round_half_even_err)
  then have "\<bar>of_int m - x / q\<bar> * q \<le> 1 / 2 * q"
    using q0 by (simp only: mult_le_cancel_right_pos)
  moreover have "\<bar>of_int m - x / q\<bar> * q = \<bar>of_int m * q - x\<bar>"
  proof -
    have "\<bar>of_int m - x / q\<bar> * q = \<bar>(of_int m - x / q) * q\<bar>"
      using q0 by (simp add: abs_mult)
    also have "(of_int m - x / q) * q = of_int m * q - x"
      using q0 by (simp add: left_diff_distrib)
    finally show ?thesis .
  qed
  ultimately have err: "\<bar>of_int m * q - x\<bar> \<le> q / 2" by simp
  have "q / 2 = 2 powr of_int e / 2 ^ 53" by (simp add: qe)
  also have "\<dots> \<le> x / 2 ^ 53" using e1 by (simp add: divide_right_mono)
  finally have qx: "q / 2 \<le> x / 2 ^ 53" .
  have "of_int m * q \<le> x + x / 2 ^ 53" using err qx by linarith
  also have "\<dots> \<le> 2 powr 1023 + 2 powr 1023 / 2 ^ 53"
    using hi by (simp add: add_mono divide_right_mono)
  also have "\<dots> < 2 powr 1024"
    by simp
  finally have fin: "\<not> 2 powr 1024 \<le> of_int m * q" by simp
  have mx: "max \<lfloor>log 2 \<bar>x\<bar>\<rfloor> (- 1022) = e" using ege x0 by (simp add: e_def)
  have "f64 x = Num (of_int m * q)"
    using x0 fin unfolding f64_def mx Let_def
    by (simp add: q_def m_def)
  with err qx show ?thesis by auto
qed

lemma f64_rel_bounds:
  fixes x u :: real
  assumes "2 powr (- 1022) \<le> x" and "x \<le> 2 powr 1023" and "u = 1 / 2 ^ 53"
  obtains y where "f64 x = Num y" and "x * (1 - u) \<le> y" and "y \<le> x * (1 + u)"
proof -
  from f64_rel [OF assms(1,2)] obtain y where y: "f64 x = Num y" "\<bar>y - x\<bar> \<le> x / 2 ^ 53"
    by blast
  from y(2) have "\<bar>y - x\<bar> \<le> x * u" unfolding assms(3) by simp
  then have "x * (1 - u) \<le> y" "y \<le> x * (1 + u)"
    by (simp_all add: abs_le_iff right_diff_distrib distrib_left)
  with y(1) show ?thesis by (rule that)
qed

lemma cosine_loop_self:
  "cosine_loop rnd a a (d, d, d) = (t, p, q) \<Longrightarrow> t = p \<and> q = p"
proof (induction a arbitrary: d)
  case Nil
  then show ?case by auto
next
  case (Cons x xs)
  let ?d = "js_add rnd d (js_mul rnd (Num x) (Num x))"
  from Cons.prems have "cosine_loop rnd xs xs (?d, ?d, ?d) = (t, p, q)" by simp
  then show ?case by (rule Cons.IH)
qed

lemma cosineSimilarity_self_f64:
  fixes n :: real
  assumes loop: "fst (snd (cosine_loop f64 a a (Num 0, Num 0, Num 0))) = Num n"
    and lo: "1 / 2 ^ 1020 \<le> n" and hi: "n \<le> 2 ^ 1022"
  shows "\<exists>r. cosineSimilarity f64 (Some a) (Some a) = Num r \<and> \<bar>r - 1\<bar> \<le> 1 / 2 ^ 50"
proof -
  define u :: real where "u = 1 / 2 ^ 53"
  define lw :: real where "lw = 1 - u"
  define up :: real where "up = 1 + u"
  have lw0: "0 < lw" and up0: "0 < up" and lw1: "lw \<le> 1" and up1: "1 \<le> up"
    by (simp_all add: lw_def up_def u_def)
  have n0: "0 < n" using lo by (rule less_le_trans [rotated]) simp
  obtain t p q where tpq: "cosine_loop f64 a a (Num 0, Num 0, Num 0) = (t, p, q)"
    by (cases "cosine_loop f64 a a (Num 0, Num 0, Num 0)") auto
  from cosine_loop_self [OF tpq] loop tpq
  have res: "cosine_loop f64 a a (Num 0, Num 0, Num 0) = (Num n, Num n, Num n)"
    by simp
  have sq_lo: "2 powr (- 1022) \<le> sqrt n"
  proof -
    have "(1 / 2 ^ 510) ^ 2 \<le> n" using lo by (simp add: power_divide flip: power_mult)
    then have "1 / 2 ^ 510 \<le> sqrt n" by (rule real_le_rsqrt)
    moreover have "(2::real) powr (- 1022) \<le> 1 / 2 ^ 510"
      by (simp add: powr_minus divide_simps)
    ultimately show ?thesis by simp
  qed
  have sq_hi: "sqrt n \<le> 2 powr 1023"
  proof -
    have "n \<le> (2 ^ 511) ^ 2" using hi by (simp flip: power_mult)
    then have "sqrt n \<le> 2 ^ 511" by (intro real_le_lsqrt) (use n0 in simp_all)
    moreover have "(2::real) ^ 511 \<le> 2 powr 1023" by simp
    ultimately show ?thesis by simp
  qed
  from f64_rel_bounds [OF sq_lo sq_hi u_def]
  obtain s where s: "f64 (sqrt n) = Num s" "sqrt n * lw \<le> s" "s \<le> sqrt n * up"
    unfolding lw_def up_def by blast
  have sn0: "0 < sqrt n" using n0 by simp
  have s0: "0 < s" using s(2) sn0 lw0 by (meson less_le_trans mult_pos_pos)
  have "(sqrt n * lw) * (sqrt n * lw) \<le> s * s"
    using s(2) sn0 lw0 s0 by (intro mult_mono) simp_all
  moreover have "(sqrt n * lw) * (sqrt n * lw) = n * (lw * lw)"
    using n0 by (simp add: mult.assoc mult.left_commute)
  ultimately have ss_lo: "n * (lw * lw) \<le> s * s" by simp
  have "s * s \<le> (sqrt n * up) * (sqrt n * up)"
    using s(3) s0 by (intro mult_mono) simp_all
  moreover have "(sqrt n * up) * (sqrt n * up) = n * (up * up)"
    using n0 by (simp add: mult.assoc mult.left_commute)
  ultimately have ss_hi: "s * s \<le> n * (up * up)" by simp
  have lw2: "1 / 4 \<le> lw * lw" and up2: "up * up \<le> 2"
    by (simp_all add: lw_def up_def u_def)
  have "2 powr (- 1022) = 1 / 2 ^ 1020 * (1 / 4 :: real)"
    by (simp add: powr_minus divide_simps)
  also have "\<dots> \<le> n * (lw * lw)"
    using lo lw2 by (intro mult_mono) simp_all
  finally have p_lo: "2 powr (- 1022) \<le> s * s" using ss_lo by simp
  have "n * (up * up) \<le> 2 ^ 1022 * 2"
    using hi up2 n0 by (intro mult_mono) simp_all
  also have "\<dots> = 2 powr 1023" by simp
  finally have p_hi: "s * s \<le> 2 powr 1023" using ss_hi by simp
  from f64_rel_bounds [OF p_lo p_hi u_def]
  obtain p' where p': "f64 (s * s) = Num p'" "s * s * lw \<le> p'" "p' \<le> s * s * up"
    unfolding lw_def up_def by blast
  have "n * (lw * lw) * lw \<le> s * s * lw"
    using ss_lo lw0 by (simp only: mult_le_cancel_right_pos)
  with p'(2) have pl: "n * (lw * lw * lw) \<le> p'" by (simp add: mult.assoc)
  have "s * s * up \<le> n * (up * up) * up"
    using ss_hi up0 by (simp only: mult_le_cancel_right_pos)
  with p'(3) have pu: "p' \<le> n * (up * up * up)" by (simp add: mult.assoc)
  have l3: "0 < lw * lw * lw" and u3: "0 < up * up * up" using lw0 up0 by simp_all
  have p0: "0 < p'" using pl n0 l3 by (meson less_le_trans mult_pos_pos)
  have q_hi': "n / p' \<le> 1 / (lw * lw * lw)"
  proof -
    have "n / p' \<le> n / (n * (lw * lw * lw))"
      using pl n0 lw0 p0 by (intro divide_left_mono mult_pos_pos) simp_all
    then show ?thesis using n0 by simp
  qed
  have q_lo': "1 / (up * up * up) \<le> n / p'"
  proof -
    have "n / (n * (up * up * up)) \<le> n / p'"
      using pu n0 p0 up0 by (intro divide_left_mono mult_pos_pos) simp_all
    then show ?thesis using n0 by simp
  qed
  have l3v: "1 / (lw * lw * lw) \<le> 2" and u3v: "1 / 2 \<le> 1 / (up * up * up)"
    by (simp_all add: lw_def up_def u_def)
  have "(2::real) powr (- 1022) \<le> 1 / 2" by (simp add: powr_minus divide_simps)
  then have q_lo: "2 powr (- 1022) \<le> n / p'" using u3v q_lo' by linarith
  have "(2::real) \<le> 2 powr 1023" by simp
  then have q_hi: "n / p' \<le> 2 powr 1023" using l3v q_hi' by linarith
  from f64_rel_bounds [OF q_lo q_hi u_def]
  obtain r where r: "f64 (n / p') = Num r" "n / p' * lw \<le> r" "r \<le> n / p' * up"
    unfolding lw_def up_def by blast
  have "1 / (up * up * up) * lw \<le> n / p' * lw"
    using q_lo' lw0 by (simp only: mult_le_cancel_right_pos)
  with r(2) have r_lo: "lw / (up * up * up) \<le> r" by simp
  have "n / p' * up \<le> 1 / (lw * lw * lw) * up"
    using q_hi' up0 by (simp only: mult_le_cancel_right_pos)
  with r(3) have r_hi: "r \<le> up / (lw * lw * lw)" by simp
  define c :: real where "c = 1 / 2 ^ 50"
  have "1 - c \<le> lw / (up * up * up)"
    by (simp add: lw_def up_def u_def c_def)
  then have c_lo: "1 - c \<le> r" using r_lo by (rule order_trans)
  have "up / (lw * lw * lw) \<le> 1 + c"
    by (simp add: lw_def up_def u_def c_def)
  with r_hi have c_hi: "r \<le> 1 + c" by (rule order_trans)
  from c_lo c_hi have "\<bar>r - 1\<bar> \<le> c" by (simp add: abs_le_iff)
  then have bound: "\<bar>r - 1\<bar> \<le> 1 / 2 ^ 50" unfolding c_def .
  have root: "js_sqrt f64 (Num n) = Num s"
    using n0 s(1) by simp
  have prod: "js_mul f64 (Num s) (Num s) = Num p'"
    using p'(1) by simp
  have quot: "js_div f64 (Num n) (Num p') = Num r"
    using p0 r(1) by simp
  have "cosineSimilarity f64 (Some a) (Some a) = Num r"
    by (simp only: cosineSimilarity_def res root prod quot option.case prod.case if_False
          simp_thms)
  with bound show ?thesis by blast
qed

lemma round_half_even_floor: "\<lfloor>r\<rfloor> \<le> round_half_even r \<and> round_half_even r \<le> \<lfloor>r\<rfloor> + 1"
  by (simp add: round_half_even_def Let_def)

lemma round_half_even_of_int: "round_half_even (of_int k) = k"
  by (simp add: round_half_even_def Let_def)

lemma round_half_even_mono:
  assumes "r \<le> r'"
  shows "round_half_even r \<le> round_half_even r'"
proof (cases "\<lfloor>r\<rfloor> = \<lfloor>r'\<rfloor>")
  case True
  with assms show ?thesis
    by (auto simp add: round_half_even_def Let_def)
next
  case False
  with assms have "\<lfloor>r\<rfloor> + 1 \<le> \<lfloor>r'\<rfloor>"
    using floor_mono [OF assms] by linarith
  with round_half_even_floor [of r] round_half_even_floor [of r'] show ?thesis
    by linarith
qed

lemma f64_form:
  fixes x :: real
  assumes x0: "0 < x" and hi: "x \<le> 2 powr 1023"
    and e: "e = max \<lfloor>log 2 x\<rfloor> (- 1022)" and q: "q = 2 powr (of_int e - 52)"
  shows "f64 x = Num (of_int (round_half_even (x / q)) * q)"
proof -
  have q0: "0 < q" by (simp add: q)
  define m where "m = round_half_even (x / q)"
  have "log 2 x \<le> 1023" using x0 hi by (simp add: log_le_iff)
  then have "\<lfloor>log 2 x\<rfloor> \<le> 1023" by (simp add: floor_le_iff)
  then have e_hi: "e \<le> 1023" by (simp add: e)
  have "\<bar>of_int m - x / q\<bar> \<le> 1 / 2" unfolding m_def by (rule round_half_even_err)
  then have "\<bar>of_int m - x / q\<bar> * q \<le> 1 / 2 * q"
    using q0 by (simp only: mult_le_cancel_right_pos)
  moreover have "\<bar>of_int m - x / q\<bar> * q = \<bar>of_int m * q - x\<bar>"
  proof -
    have "\<bar>of_int m - x / q\<bar> * q = \<bar>(of_int m - x / q) * q\<bar>"
      using q0 by (simp add: abs_mult)
    also have "(of_int m - x / q) * q = of_int m * q - x"
      using q0 by (simp add: left_diff_distrib)
    finally show ?thesis .
  qed
  ultimately have err: "\<bar>of_int m * q - x\<bar> \<le> q / 2" by simp
  have "q \<le> 2 powr (of_int 1023 - 52)"
    unfolding q using e_hi by (intro powr_mono) simp_all
  then have "q \<le> 2 ^ 971" by simp
  then have "q / 2 \<le> 2 ^ 971" using q0 by simp
  with err have "of_int m * q \<le> x + 2 ^ 971" by linarith
  also have "\<dots> \<le> 2 powr 1023 + 2 ^ 971" using hi by simp
  also have "\<dots> < 2 powr 1024" by simp
  finally have fin: "\<not> 2 powr 1024 \<le> of_int m * q" by simp
  show ?thesis
    using x0 fin unfolding f64_def Let_def
    by (simp add: e q m_def)
qed

lemma f64_mono:
  fixes x x' :: real
  assumes "0 \<le> x" and "x \<le> x'" and "x' \<le> 2 powr 1023"
  shows "\<exists>y y'. f64 x = Num y \<and> f64 x' = Num y' \<and> 0 \<le> y \<and> y \<le> y'"
proof (cases "x' = 0")
  case True
  with assms have "x = 0" by simp
  with True show ?thesis by (simp add: f64_0)
next
  case False
  with assms have x'0: "0 < x'" by simp
  define e' where "e' = max \<lfloor>log 2 x'\<rfloor> (- 1022)"
  define q' :: real where "q' = 2 powr (of_int e' - 52)"
  define m' where "m' = round_half_even (x' / q')"
  have q'0: "0 < q'" by (simp add: q'_def)
  have y': "f64 x' = Num (of_int m' * q')"
    unfolding m'_def by (rule f64_form [OF x'0 assms(3) e'_def q'_def])
  have "round_half_even (of_int 0) \<le> m'"
    unfolding m'_def using x'0 q'0 by (intro round_half_even_mono) simp
  then have m'0: "0 \<le> m'" by (simp only: round_half_even_of_int)
  show ?thesis
  proof (cases "x = 0")
    case True
    with y' m'0 q'0 show ?thesis by (simp add: f64_0)
  next
    case False
    with assms have x0: "0 < x" by simp
    define e where "e = max \<lfloor>log 2 x\<rfloor> (- 1022)"
    define q :: real where "q = 2 powr (of_int e - 52)"
    define m where "m = round_half_even (x / q)"
    have q0: "0 < q" by (simp add: q_def)
    have xhi: "x \<le> 2 powr 1023" using assms(2,3) by simp
    have y: "f64 x = Num (of_int m * q)"
      unfolding m_def by (rule f64_form [OF x0 xhi e_def q_def])
    have "round_half_even (of_int 0) \<le> m"
      unfolding m_def using x0 q0 by (intro round_half_even_mono) simp
    then have m0: "0 \<le> m" by (simp only: round_half_even_of_int)
    have "log 2 x \<le> log 2 x'" using x0 assms(2) by simp
    then have ee: "e \<le> e'" unfolding e_def e'_def by (intro max.mono floor_mono) simp_all
    have le: "of_int m * q \<le> of_int m' * q'"
    proof (cases "e = e'")
      case True
      then have qq: "q = q'" by (simp add: q_def q'_def)
      have "m \<le> m'" unfolding m_def m'_def qq
        using assms(2) q'0 by (intro round_half_even_mono) (simp add: divide_right_mono)
      then show ?thesis using q'0 by (simp add: qq)
    next
      case False
      with ee have lt: "e + 1 \<le> e'" by simp
      then have fl: "e' = \<lfloor>log 2 x'\<rfloor>" unfolding e'_def e_def by linarith
      have "of_int e' \<le> log 2 x'" unfolding fl by simp
      then have "2 powr of_int e' \<le> x'" using x'0 by (simp add: le_log_iff)
      then have "2 powr of_int e' / q' \<le> x' / q'" using q'0 by (simp add: divide_right_mono)
      moreover have "2 powr of_int e' / q' = of_int (2 ^ 52)"
        by (simp add: q'_def powr_diff)
      ultimately have "round_half_even (of_int (2 ^ 52)) \<le> m'"
        unfolding m'_def by (intro round_half_even_mono) simp
      then have "2 ^ 52 \<le> m'" by (simp only: round_half_even_of_int)
      then have "(of_int (2 ^ 52) :: real) \<le> of_int m'" by (simp only: of_int_le_iff)
      then have "(2 ^ 52 :: real) \<le> of_int m'" by simp
      then have "2 ^ 52 * q' \<le> of_int m' * q'" using q'0 by (simp only: mult_le_cancel_right_pos)
      moreover have "2 ^ 52 * q' = 2 powr of_int e'"
        by (simp add: q'_def powr_diff)
      ultimately have low: "2 powr of_int e' \<le> of_int m' * q'" by simp
      have "\<lfloor>log 2 x\<rfloor> \<le> e" by (simp add: e_def)
      then have "log 2 x < of_int e + 1" by linarith
      then have "x < 2 powr (of_int e + 1)" using x0 by (simp add: log_less_iff)
      then have "x / q \<le> 2 powr (of_int e + 1) / q" using q0 by (simp add: divide_right_mono)
      moreover have "2 powr (of_int e + 1) / q = of_int (2 ^ 53)"
        by (simp add: q_def powr_diff powr_add)
      ultimately have "m \<le> round_half_even (of_int (2 ^ 53))"
        unfolding m_def by (intro round_half_even_mono) simp
      then have "m \<le> 2 ^ 53" by (simp only: round_half_even_of_int)
      then have "of_int m \<le> (of_int (2 ^ 53) :: real)" by (simp only: of_int_le_iff)
      then have "of_int m \<le> (2 ^ 53 :: real)" by simp
      then have "of_int m * q \<le> 2 ^ 53 * q" using q0 by (simp only: mult_le_cancel_right_pos)
      moreover have "2 ^ 53 * q = 2 powr (of_int e + 1)"
        by (simp add: q_def powr_diff powr_add)
      ultimately have up: "of_int m * q \<le> 2 powr (of_int e + 1)" by simp
      have "(of_int (e + 1) :: real) \<le> of_int e'" using lt by (simp only: of_int_le_iff)
      then have "(of_int e + 1 :: real) \<le> of_int e'" by simp
      then have "(2::real) powr (of_int e + 1) \<le> 2 powr of_int e'"
        by (intro powr_mono) simp_all
      with up low show ?thesis by linarith
    qed
    with y y' m0 q0 show ?thesis by simp
  qed
qed

lemma f64_le:
  fixes x R :: real
  assumes "0 \<le> x" and "x \<le> R" and "f64 R = Num R" and "R \<le> 2 powr 1023"
  shows "\<exists>y. f64 x = Num y \<and> 0 \<le> y \<and> y \<le> R"
  using f64_mono [OF assms(1,2,4)] assms(3) by auto

lemma f64_ge:
  fixes x L :: real
  assumes "0 \<le> L" and "L \<le> x" and "f64 L = Num L" and "x \<le> 2 powr 1023"
  shows "\<exists>y. f64 x = Num y \<and> L \<le> y"
  using f64_mono [OF assms(1,2,4)] assms(3) by auto

lemma f64_repr:
  fixes x :: real
  assumes x: "x = of_int m * 2 powr of_int k" and m0: "0 < m" and m53: "m < 2 ^ 53"
    and k: "- 1074 \<le> k" and hi: "x \<le> 2 powr 1023"
  shows "f64 x = Num x"
proof -
  have x0: "0 < x" using m0 by (simp add: x)
  define e where "e = max \<lfloor>log 2 x\<rfloor> (- 1022)"
  define q :: real where "q = 2 powr (of_int e - 52)"
  have q0: "0 < q" by (simp add: q_def)
  have "(of_int m :: real) < of_int (2 ^ 53)" using m53 by (simp only: of_int_less_iff)
  then have "(of_int m :: real) < 2 ^ 53" by simp
  then have "x < 2 ^ 53 * 2 powr of_int k" by (simp add: x)
  also have "\<dots> = 2 powr (of_int k + 53)" by (simp add: powr_add)
  finally have "log 2 x < of_int k + 53" using x0 by (simp add: log_less_iff)
  then have "log 2 x < of_int (k + 53)" by simp
  then have "\<lfloor>log 2 x\<rfloor> < k + 53" by (simp only: floor_less_iff)
  with k have ek: "e \<le> k + 52" by (simp add: e_def)
  define j where "j = nat (k + 52 - e)"
  have jk: "of_int k = of_int e - 52 + (of_nat j :: real)"
    using ek by (simp add: j_def)
  have "2 powr of_int k = q * 2 ^ j"
    unfolding jk q_def by (simp add: powr_add powr_realpow)
  then have "x / q = of_int m * 2 ^ j" using q0 by (simp add: x)
  also have "\<dots> = of_int (m * 2 ^ j)" by simp
  finally have xq: "x / q = of_int (m * 2 ^ j)" .
  have "f64 x = Num (of_int (round_half_even (x / q)) * q)"
    by (rule f64_form [OF x0 hi e_def q_def])
  also have "of_int (round_half_even (x / q)) * q = x / q * q"
    unfolding xq by (simp only: round_half_even_of_int)
  also have "\<dots> = x" using q0 by simp
  finally show ?thesis .
qed

lemma f64_pow_1000: "f64 (2 ^ 1000) = Num (2 ^ 1000)"
  by (rule f64_repr [of _ 1 1000]) simp_all

lemma f64_pow_minus_1000: "f64 (1 / 2 ^ 1000) = Num (1 / 2 ^ 1000)"
  by (rule f64_repr [of _ 1 "- 1000"]) (simp_all add: powr_minus divide_simps)

lemma f64_multiple_1000:
  assumes "0 < j" and "j \<le> 2 ^ 20"
  shows "f64 (of_nat j * 2 ^ 1000) = Num (of_nat j * 2 ^ 1000)"
proof (rule f64_repr [of _ "int j" 1000])
  show "real j * 2 ^ 1000 = of_int (int j) * 2 powr of_int 1000" by simp
  show "0 < int j" using assms(1) by simp
  have "int j \<le> int (2 ^ 20)" using assms(2) by (simp only: of_nat_le_iff)
  then show "int j < 2 ^ 53" by simp
  show "- 1074 \<le> (1000::int)" by simp
  have "real j \<le> real (2 ^ 20)" using assms(2) by (simp only: of_nat_le_iff)
  then have "real j \<le> 2 ^ 20" by simp
  then have "real j * 2 ^ 1000 \<le> 2 ^ 20 * 2 ^ 1000"
    by (simp only: mult_le_cancel_right_pos zero_less_power zero_less_numeral)
  also have "\<dots> \<le> 2 powr 1023" by simp
  finally show "real j * 2 ^ 1000 \<le> 2 powr 1023" .
qed

lemma cosine_loop_self_bounds:
  fixes c :: real
  assumes "\<forall>x\<in>set a. \<bar>x\<bar> \<le> 2 ^ 500" and "0 \<le> c" and "c \<le> of_nat j * 2 ^ 1000"
    and "j + length a \<le> 2 ^ 20"
  shows "\<exists>n. cosine_loop f64 a a (Num c, Num c, Num c) = (Num n, Num n, Num n)
             \<and> 0 \<le> n \<and> n \<le> of_nat (j + length a) * 2 ^ 1000
             \<and> (1 / 2 ^ 1000 \<le> c \<or> (\<exists>x\<in>set a. 1 / 2 ^ 500 \<le> \<bar>x\<bar>) \<longrightarrow> 1 / 2 ^ 1000 \<le> n)"
  using assms
proof (induction a arbitrary: c j)
  case Nil
  then show ?case by simp
next
  case (Cons x xs)
  define L :: real where "L = 1 / 2 ^ 1000"
  define B :: real where "B = 2 ^ 1000"
  have B_hi: "B \<le> 2 powr 1023" by (simp add: B_def)
  have L0: "0 \<le> L" by (simp add: L_def)
  have fB: "f64 B = Num B" unfolding B_def by (rule f64_pow_1000)
  have fL: "f64 L = Num L" unfolding L_def by (rule f64_pow_minus_1000)
  have sj: "0 < Suc j" "Suc j \<le> 2 ^ 20" using Cons.prems(4) by simp_all
  have fS: "f64 (of_nat (Suc j) * B) = Num (of_nat (Suc j) * B)"
    unfolding B_def using sj by (rule f64_multiple_1000)
  have "real (Suc j) \<le> real (2 ^ 20)" using sj(2) by (simp only: of_nat_le_iff)
  then have "real (Suc j) \<le> 2 ^ 20" by simp
  then have "real (Suc j) * B \<le> 2 ^ 20 * B"
    by (simp add: B_def)
  also have "\<dots> \<le> 2 powr 1023" by (simp add: B_def)
  finally have S_hi: "real (Suc j) * B \<le> 2 powr 1023" .
  have ax: "\<bar>x\<bar> \<le> 2 ^ 500" using Cons.prems(1) by simp
  have xx: "x * x = \<bar>x\<bar> * \<bar>x\<bar>" by simp
  have "\<bar>x\<bar> * \<bar>x\<bar> \<le> 2 ^ 500 * 2 ^ 500"
    using ax by (intro mult_mono) simp_all
  also have "\<dots> = B" by (simp add: B_def)
  finally have xB: "x * x \<le> B" unfolding xx .
  have x0: "0 \<le> x * x" by simp
  from f64_le [OF x0 xB fB B_hi]
  obtain s where s: "f64 (x * x) = Num s" "0 \<le> s" "s \<le> B" by blast
  have s_big: "L \<le> s" if "1 / 2 ^ 500 \<le> \<bar>x\<bar>"
  proof -
    have "(1 / 2 ^ 500) * (1 / 2 ^ 500) \<le> \<bar>x\<bar> * \<bar>x\<bar>"
      using that by (intro mult_mono) simp_all
    moreover have "(1 / 2 ^ 500) * (1 / 2 ^ 500) = L" by (simp add: L_def)
    ultimately have "L \<le> x * x" unfolding xx by simp
    from f64_ge [OF L0 this fL] xB B_hi s(1) show ?thesis by auto
  qed
  have cB: "c \<le> real j * B" using Cons.prems(3) by (simp add: B_def)
  have "c + s \<le> real j * B + B" using cB s(3) by simp
  also have "\<dots> = real (Suc j) * B" by (simp add: distrib_right)
  finally have cs: "c + s \<le> real (Suc j) * B" .
  have cs0: "0 \<le> c + s" using Cons.prems(2) s(2) by simp
  from f64_le [OF cs0 cs fS S_hi]
  obtain c' where c': "f64 (c + s) = Num c'" "0 \<le> c'" "c' \<le> real (Suc j) * B" by blast
  have c'_big: "L \<le> c'" if "L \<le> c \<or> L \<le> s"
  proof -
    have "L \<le> c + s" using that Cons.prems(2) s(2) by auto
    moreover have "c + s \<le> 2 powr 1023" using cs S_hi by simp
    ultimately show ?thesis using f64_ge [OF L0 _ fL, of "c + s"] c'(1) by auto
  qed
  have step: "cosine_loop f64 (x # xs) (x # xs) (Num c, Num c, Num c)
                = cosine_loop f64 xs xs (Num c', Num c', Num c')"
    by (simp add: s(1) c'(1))
  have p1: "\<forall>x\<in>set xs. \<bar>x\<bar> \<le> 2 ^ 500" using Cons.prems(1) by simp
  have p3: "c' \<le> real (Suc j) * 2 ^ 1000" using c'(3) by (simp only: B_def)
  have p4: "Suc j + length xs \<le> 2 ^ 20" using Cons.prems(4) by simp
  from Cons.IH [OF p1 c'(2) p3 p4]
  obtain n where n: "cosine_loop f64 xs xs (Num c', Num c', Num c') = (Num n, Num n, Num n)"
      "0 \<le> n" "n \<le> real (Suc j + length xs) * 2 ^ 1000"
      "1 / 2 ^ 1000 \<le> c' \<or> (\<exists>x\<in>set xs. 1 / 2 ^ 500 \<le> \<bar>x\<bar>) \<longrightarrow> 1 / 2 ^ 1000 \<le> n"
    by blast
  have low: "1 / 2 ^ 1000 \<le> n"
    if h: "1 / 2 ^ 1000 \<le> c \<or> (\<exists>y\<in>set (x # xs). 1 / 2 ^ 500 \<le> \<bar>y\<bar>)"
  proof -
    from h consider "L \<le> c" | "1 / 2 ^ 500 \<le> \<bar>x\<bar>" | "\<exists>y\<in>set xs. 1 / 2 ^ 500 \<le> \<bar>y\<bar>"
      by (auto simp add: L_def)
    then show ?thesis
    proof cases
      case 1
      then have "L \<le> c'" using c'_big by simp
      then show ?thesis using n(4) by (simp only: L_def) blast
    next
      case 2
      then have "L \<le> c'" using c'_big s_big by simp
      then show ?thesis using n(4) by (simp only: L_def) blast
    next
      case 3
      then show ?thesis using n(4) by blast
    qed
  qed
  have len: "j + length (x # xs) = Suc j + length xs" by simp
  show ?case
    unfolding step len using n(1,2,3) low by blast
qed

lemma cosineSimilarity_self_f64_vector:
  assumes len: "length a \<le> 2 ^ 20" and hi: "\<forall>x\<in>set a. \<bar>x\<bar> \<le> 2 ^ 500"
    and lo: "\<exists>x\<in>set a. 1 / 2 ^ 500 \<le> \<bar>x\<bar>"
  shows "\<exists>r. cosineSimilarity f64 (Some a) (Some a) = Num r \<and> \<bar>r - 1\<bar> \<le> 1 / 2 ^ 50"
proof -
  have "(0::real) \<le> of_nat 0 * 2 ^ 1000" by simp
  from cosine_loop_self_bounds [OF hi order_refl this, of ] len lo
  obtain n :: real where n: "cosine_loop f64 a a (Num 0, Num 0, Num 0) = (Num n, Num n, Num n)"
      "n \<le> real (length a) * 2 ^ 1000" "1 / 2 ^ 1000 \<le> n"
    by auto
  have "real (length a) \<le> real (2 ^ 20)" using len by (simp only: of_nat_le_iff)
  then have "real (length a) \<le> 2 ^ 20" by simp
  then have "real (length a) * 2 ^ 1000 \<le> 2 ^ 20 * 2 ^ 1000"
    by (simp only: mult_le_cancel_right_pos zero_less_power zero_less_numeral)
  also have "\<dots> \<le> 2 ^ 1022" by simp
  finally have n_hi: "n \<le> 2 ^ 1022" using n(2) by simp
  have "(1::real) / 2 ^ 1020 \<le> 1 / 2 ^ 1000" by simp
  then have n_lo: "1 / 2 ^ 1020 \<le> n" using n(3) by (rule order_trans)
  have "fst (snd (cosine_loop f64 a a (Num 0, Num 0, Num 0))) = Num n"
    by (simp only: n(1) fst_conv snd_conv)
  then show ?thesis using n_lo n_hi by (rule cosineSimilarity_self_f64)
qed

lemma cosine_loop_f64_unit2:
  "cosine_loop f64 [1, 1] [1, 1] (Num 0, Num 0, Num 0) = (Num 2, Num 2, Num 2)"
  by (simp add: f64_1 f64_2)

lemma f64_tiny_square: "f64 (1 / 2 ^ 600 * (1 / 2 ^ 600)) = Num 0"
proof (rule f64_underflow)
  show "(0::real) < 1 / 2 ^ 600 * (1 / 2 ^ 600)" by simp
  have "(1::real) / 2 ^ 600 * (1 / 2 ^ 600) = 1 / 2 ^ 1200"
    by (simp flip: power_add)
  also have "\<dots> < 1 / 2 ^ 1075" by simp
  also have "\<dots> = 2 powr (- 1075)" by (simp add: powr_minus divide_simps)
  finally show "(1::real) / 2 ^ 600 * (1 / 2 ^ 600) < 2 powr (- 1075)" .
qed

lemma cosineSimilarity_f64_tiny:
  "cosineSimilarity f64 (Some [1 / 2 ^ 600]) (Some [1 / 2 ^ 600]) = NaN"
proof -
  have loop: "cosine_loop f64 [1 / 2 ^ 600] [1 / 2 ^ 600] (Num 0, Num 0, Num 0)
                = (Num 0, Num 0, Num 0)"
    by (simp only: cosine_loop.simps js_mul.simps js_add.simps f64_tiny_square add_0 f64_0)
  have root: "js_sqrt f64 (Num 0) = Num 0" by (simp add: f64_0)
  have prod: "js_mul f64 (Num 0) (Num 0) = Num 0" by (simp add: f64_0)
  have quot: "js_div f64 (Num 0) (Num 0) = NaN" by simp
  show ?thesis
    by (simp only: cosineSimilarity_def loop root prod quot option.case prod.case list.size
          if_False simp_thms)
qed

lemma f64_neg: "f64 (- x) = js_neg (f64 x)"
  by (simp add: f64_def Let_def)

lemma f64_numeral: "(numeral k :: int) < 2 ^ 53 \<Longrightarrow> f64 (numeral k) = Num (numeral k)"
proof (rule f64_repr [of _ "numeral k" 0])
  assume a: "(numeral k :: int) < 2 ^ 53"
  show "(numeral k :: real) = of_int (numeral k) * 2 powr of_int 0" by simp
  show "(0::int) < numeral k" by simp
  show "(numeral k :: int) < 2 ^ 53" by (rule a)
  show "- 1074 \<le> (0::int)" by simp
  have "(of_int (numeral k) :: real) < of_int (2 ^ 53)" using a by (simp only: of_int_less_iff)
  then have "(numeral k :: real) < 2 ^ 53" by simp
  also have "\<dots> \<le> 2 powr 1023" by simp
  finally show "(numeral k :: real) \<le> 2 powr 1023" by simp
qed

lemma sqrt_25: "sqrt 25 = 5"
  by (rule real_sqrt_unique) simp_all

text \<open>
  The double nearest to 0.2 is \<open>3602879701896397 / 2 ^ 54\<close> (0.200000000000000011...).
\<close>

lemma f64_fifth: "f64 (1 / 5) = Num (3602879701896397 / 2 ^ 54)"
  using f64_eq [of "1 / 5" "- 3" "1 / 2 ^ 55" 7205759403792794]
  by (simp add: powr_minus divide_simps)

lemma f64_fifth_fixed: "f64 (3602879701896397 / 2 ^ 54) = Num (3602879701896397 / 2 ^ 54)"
  by (rule f64_repr [of _ 3602879701896397 "- 54"]) (simp_all add: powr_minus divide_simps)

lemma f64_fifth_fixed_literal:
  "f64 (3602879701896397 / 18014398509481984) = Num (3602879701896397 / 18014398509481984)"
  using f64_fifth_fixed by simp

lemma example_similarities_f64:
  "cosineSimilarity f64 (Some [1, 0, 0, 0]) (Some [1, 4, 2, 2]) = Num (3602879701896397 / 2 ^ 54)"
  "cosineSimilarity f64 (Some [1, 0, 0, 0]) (Some [0, 1, 0, 0]) = Num 0"
  "cosineSimilarity f64 (Some [1, 0, 0, 0]) (Some [0, 0, 3, 4]) = Num 0"
  by (simp_all add: cosineSimilarity_def f64_0 f64_1 f64_numeral sqrt_25 f64_fifth)

text \<open>
  C3, as the code has it. For every rounding of the arithmetic, so for the binary64
  arithmetic that the code runs, the similarity is symmetric and is 0 when a vector is
  absent or the lengths differ. In binary64 the similarity of a vector with itself is a
  number within \<open>2 ^ -50\<close> of 1 for every vector of at most \<open>2 ^ 20\<close> components, none of
  them of magnitude above \<open>2 ^ 500\<close> and at least one of magnitude \<open>2 ^ -500\<close> or more; and,
  for any vector, whenever the squared norm \<open>n\<close> that the loop accumulates (\<open>normA\<close>) lies
  between \<open>2 ^ -1020\<close> and \<open>2 ^ 1022\<close>, which keeps the square roots, their product and the
  quotient in the normal range.
\<close>

theorem cosineSimilarity_properties:
  "cosineSimilarity rnd vecA vecB = cosineSimilarity rnd vecB vecA
   \<and> (vecA = None \<or> vecB = None \<or> length (the vecA) \<noteq> length (the vecB)
        \<longrightarrow> cosineSimilarity rnd vecA vecB = Num 0)
   \<and> (length a \<le> 2 ^ 20 \<and> (\<forall>x\<in>set a. \<bar>x\<bar> \<le> 2 ^ 500) \<and> (\<exists>x\<in>set a. 1 / 2 ^ 500 \<le> \<bar>x\<bar>)
        \<longrightarrow> (\<exists>r. cosineSimilarity f64 (Some a) (Some a) = Num r \<and> \<bar>r - 1\<bar> \<le> 1 / 2 ^ 50))
   \<and> (fst (snd (cosine_loop f64 b b (Num 0, Num 0, Num 0))) = Num n
        \<and> 1 / 2 ^ 1020 \<le> n \<and> n \<le> 2 ^ 1022
        \<longrightarrow> (\<exists>r. cosineSimilarity f64 (Some b) (Some b) = Num r \<and> \<bar>r - 1\<bar> \<le> 1 / 2 ^ 50))"
proof (intro conjI impI)
  show "cosineSimilarity rnd vecA vecB = cosineSimilarity rnd vecB vecA"
    by (rule cosineSimilarity_sym)
  show "cosineSimilarity rnd vecA vecB = Num 0"
    if "vecA = None \<or> vecB = None \<or> length (the vecA) \<noteq> length (the vecB)"
    using that by (auto simp: cosineSimilarity_def split: option.splits)
  show "\<exists>r. cosineSimilarity f64 (Some a) (Some a) = Num r \<and> \<bar>r - 1\<bar> \<le> 1 / 2 ^ 50"
    if "length a \<le> 2 ^ 20 \<and> (\<forall>x\<in>set a. \<bar>x\<bar> \<le> 2 ^ 500) \<and> (\<exists>x\<in>set a. 1 / 2 ^ 500 \<le> \<bar>x\<bar>)"
    using that by (intro cosineSimilarity_self_f64_vector) blast+
  show "\<exists>r. cosineSimilarity f64 (Some b) (Some b) = Num r \<and> \<bar>r - 1\<bar> \<le> 1 / 2 ^ 50"
    if "fst (snd (cosine_loop f64 b b (Num 0, Num 0, Num 0))) = Num n
        \<and> 1 / 2 ^ 1020 \<le> n \<and> n \<le> 2 ^ 1022"
    using that by (intro cosineSimilarity_self_f64 [of b n]) simp_all
qed

text \<open>
  In binary64: the vectors \<open>[3, 4]\<close> and \<open>[4, 3]\<close>, a vector of another length, an absent
  vector, the self-similarity of \<open>[3, 4]\<close> by its components, and that of \<open>[1, 1]\<close> by its
  squared norm 2.
\<close>

theorem cosineSimilarity_properties_witness:
  "cosineSimilarity f64 (Some [3, 4]) (Some [4, 3]) = cosineSimilarity f64 (Some [4, 3]) (Some [3, 4])
   \<and> cosineSimilarity f64 (Some [3, 4]) (Some [1, 2, 3]) = Num 0
   \<and> cosineSimilarity f64 (Some [3, 4]) None = Num 0
   \<and> (\<exists>r. cosineSimilarity f64 (Some [3, 4]) (Some [3, 4]) = Num r \<and> \<bar>r - 1\<bar> \<le> 1 / 2 ^ 50)
   \<and> fst (snd (cosine_loop f64 [1, 1] [1, 1] (Num 0, Num 0, Num 0))) = Num 2
   \<and> (\<exists>r. cosineSimilarity f64 (Some [1, 1]) (Some [1, 1]) = Num r \<and> \<bar>r - 1\<bar> \<le> 1 / 2 ^ 50)"
proof -
  have sym: "cosineSimilarity f64 (Some [3, 4]) (Some [4, 3])
               = cosineSimilarity f64 (Some [4, 3]) (Some [3, 4])"
    by (rule conjunct1 [OF cosineSimilarity_properties])
  have len: "cosineSimilarity f64 (Some [3, 4]) (Some [1, 2, 3]) = Num 0"
    using conjunct1 [OF conjunct2
            [OF cosineSimilarity_properties [of f64 "Some [3, 4]" "Some [1, 2, 3]"]]]
    by simp
  have absent: "cosineSimilarity f64 (Some [3, 4]) None = Num 0"
    using conjunct1 [OF conjunct2 [OF cosineSimilarity_properties [of f64 "Some [3, 4]" None]]]
    by simp
  have comps: "length [3, 4 :: real] \<le> 2 ^ 20 \<and> (\<forall>x\<in>set [3, 4 :: real]. \<bar>x\<bar> \<le> 2 ^ 500)
                 \<and> (\<exists>x\<in>set [3, 4 :: real]. 1 / 2 ^ 500 \<le> \<bar>x\<bar>)"
    by simp
  have self34: "\<exists>r. cosineSimilarity f64 (Some [3, 4]) (Some [3, 4]) = Num r
                  \<and> \<bar>r - 1\<bar> \<le> 1 / 2 ^ 50"
    by (rule mp [OF conjunct1 [OF conjunct2 [OF conjunct2
                  [OF cosineSimilarity_properties [of _ _ _ "[3, 4]"]]]] comps])
  have norm: "fst (snd (cosine_loop f64 [1, 1] [1, 1] (Num 0, Num 0, Num 0))) = Num 2"
    by (simp only: cosine_loop_f64_unit2 fst_conv snd_conv)
  have range: "(1::real) / 2 ^ 1020 \<le> 2 \<and> (2::real) \<le> 2 ^ 1022"
    by simp
  have self11: "\<exists>r. cosineSimilarity f64 (Some [1, 1]) (Some [1, 1]) = Num r
                  \<and> \<bar>r - 1\<bar> \<le> 1 / 2 ^ 50"
    by (rule mp [OF conjunct2 [OF conjunct2 [OF conjunct2
                  [OF cosineSimilarity_properties [of _ _ _ _ "[1, 1]" 2]]]]])
       (intro conjI norm conjunct1 [OF range] conjunct2 [OF range])
  from sym len absent self34 norm self11 show ?thesis by (intro conjI)
qed

text \<open>
  In binary64 the similarity of a non-zero vector with itself need not be 1, nor near 1.
  For \<open>[1, 1]\<close> both norms are 2, \<open>Math.sqrt(2) * Math.sqrt(2)\<close> is \<open>2 + 2 ^ -51\<close>
  (2.0000000000000004) and the quotient is \<open>1 - 2 ^ -52\<close> (0.9999999999999998). For the
  one-component vector \<open>[2 ^ -600]\<close> the square underflows to 0 and the quotient \<open>0 / 0\<close>
  is NaN.
\<close>

theorem cosineSimilarity_self_counterexample:
  "cosineSimilarity f64 (Some [1, 1]) (Some [1, 1]) = Num (1 - 1 / 2 ^ 52)
   \<and> Num (1 - 1 / 2 ^ 52) \<noteq> Num 1
   \<and> cosineSimilarity f64 (Some [1 / 2 ^ 600]) (Some [1 / 2 ^ 600]) = NaN
   \<and> NaN \<noteq> Num 1"
  using cosineSimilarity_f64_unit2 cosineSimilarity_f64_tiny by simp

section \<open>Properties of the vector store\<close>

lemma cursor_delete_loop_filter:
  "cursor_delete_loop keys chunks = filter (\<lambda>c. chunk_id c \<notin> set keys) chunks"
proof (induction keys arbitrary: chunks)
  case Nil
  show ?case by simp
next
  case (Cons key keys)
  have "(\<lambda>c. chunk_id c \<notin> set keys \<and> chunk_id c \<noteq> key) = (\<lambda>c. chunk_id c \<notin> set (key # keys))"
    by auto
  then show ?case by (simp add: Cons.IH)
qed

lemma visited_keys_iff:
  assumes "distinct (map chunk_id chunks)" and "c \<in> set chunks"
  shows "chunk_id c \<in> set (map chunk_id (filter (\<lambda>c. docId c = d) chunks)) \<longleftrightarrow> docId c = d"
proof
  assume "chunk_id c \<in> set (map chunk_id (filter (\<lambda>c. docId c = d) chunks))"
  then obtain c' where c': "c' \<in> set chunks" "docId c' = d" "chunk_id c' = chunk_id c"
    by auto
  from assms(1) have "inj_on chunk_id (set chunks)" by (simp add: distinct_map)
  with c'(1,3) assms(2) have "c' = c" by (auto dest: inj_onD)
  with c'(2) show "docId c = d" by simp
next
  assume "docId c = d"
  with assms(2) show "chunk_id c \<in> set (map chunk_id (filter (\<lambda>c. docId c = d) chunks))"
    by auto
qed

text \<open>
  C4. In a store whose chunk keys are distinct (the key path \<open>id\<close> of the object store),
  deleting a document leaves exactly the chunks of the other documents, unchanged and in
  their order: every chunk whose \<open>docId\<close> is the deleted id is gone, no other chunk is.
  The document record itself is removed and the chat history is untouched.
\<close>

theorem deleteDocument_cascade:
  assumes "distinct (map chunk_id (store_chunks db))"
  shows "store_chunks (deleteDocument db d) = filter (\<lambda>c. docId c \<noteq> d) (store_chunks db)
         \<and> store_documents (deleteDocument db d)
             = filter (\<lambda>doc. doc_id doc \<noteq> d) (store_documents db)
         \<and> store_chatHistory (deleteDocument db d) = store_chatHistory db"
proof -
  have "filter (\<lambda>c. chunk_id c \<notin> set (map chunk_id (filter (\<lambda>c. docId c = d) (store_chunks db))))
          (store_chunks db)
        = filter (\<lambda>c. docId c \<noteq> d) (store_chunks db)"
    by (rule filter_cong [OF refl]) (simp only: visited_keys_iff [OF assms])
  then show ?thesis
    by (simp add: deleteDocument_def Let_def cursor_delete_loop_filter)
qed

theorem deleteDocument_cascade_witness:
  "distinct (map chunk_id (store_chunks example_db))
   \<and> store_chunks (deleteDocument example_db 1) = [example_chunk 2 2 [0, 1, 0, 0]]
   \<and> map doc_id (store_documents (deleteDocument example_db 1)) = [2]"
proof -
  have d: "distinct (map chunk_id (store_chunks example_db))"
    by (simp add: example_db_def example_chunk_def)
  show ?thesis
    using deleteDocument_cascade [OF d, of 1] d
    by (simp add: example_db_def example_chunk_def)
qed

lemma insert_sorted_mset: "mset (insert_sorted cmp x ys) = add_mset x (mset ys)"
  by (induction ys) simp_all

lemma stable_sort_mset: "mset (stable_sort cmp xs) = mset xs"
  by (induction xs) (simp_all add: stable_sort_def insert_sorted_mset)

text \<open>
  Where every similarity is a number, \<open>stable_sort\<close> with the comparison function of the
  search in exact arithmetic is the stable sort by decreasing similarity (\<open>sort_key\<close> of
  HOL), the order that ECMAScript fixes for a consistent comparison function.
\<close>

lemma insert_sorted_insort_key:
  assumes "similarity x = Num (key x)" and "\<forall>c\<in>set ys. similarity c = Num (key c)"
  shows "insert_sorted (by_similarity Num) x ys = insort_key (\<lambda>c. - key c) x ys"
  using assms(2)
proof (induction ys)
  case Nil
  show ?case by simp
next
  case (Cons y ys)
  then show ?case
    using assms(1) by (auto simp add: by_similarity_def js_sub_def)
qed

lemma stable_sort_sort_key:
  assumes "\<forall>c\<in>set xs. similarity c = Num (key c)"
  shows "stable_sort (by_similarity Num) xs = sort_key (\<lambda>c. - key c) xs"
  using assms
proof (induction xs)
  case Nil
  show ?case by (simp add: stable_sort_def)
next
  case (Cons x xs)
  then have ih: "stable_sort (by_similarity Num) xs = sort_key (\<lambda>c. - key c) xs"
    by simp
  have "\<forall>c\<in>set (sort_key (\<lambda>c. - key c) xs). similarity c = Num (key c)"
    using Cons.prems by simp
  with Cons.prems have "insert_sorted (by_similarity Num) x (sort_key (\<lambda>c. - key c) xs)
                          = insort_key (\<lambda>c. - key c) x (sort_key (\<lambda>c. - key c) xs)"
    by (intro insert_sorted_insort_key) simp_all
  with ih show ?case
    by (simp add: stable_sort_def)
qed

lemma js_slice_take: "0 \<le> limit \<Longrightarrow> js_slice xs 0 limit = take (nat limit) xs"
  by (cases "nat limit \<le> length xs") (simp_all add: js_slice_def js_slice_index_def Let_def min_def)

lemma mset_take_subseteq: "mset (take n xs) \<subseteq># mset xs"
proof -
  have "mset xs = mset (take n xs) + mset (drop n xs)"
    by (simp flip: mset_append)
  then show ?thesis by simp
qed

text \<open>
  C10. A search with an empty list of filter ids is the search with no filter, for every
  query, limit, rounding and sort of the engine: the filter applies only under
  \<open>filterDocIds && filterDocIds.length > 0\<close>, so the candidates that are scored and handed
  to the sort are all the stored chunks, and the result is the first \<open>limit\<close> of them in the
  sorted order. Where the engine's sort permutes its input and the limit is not negative,
  the result has \<open>min limit n\<close> entries for a store of \<open>n\<close> chunks, each of them a stored
  chunk with its similarity to the query, and it has every stored chunk when the limit is
  \<open>n\<close> or more.
\<close>

theorem searchChunks_empty_filter:
  "searchChunks engine_sort rnd db queryEmbedding (Some []) limit
     = searchChunks engine_sort rnd db queryEmbedding None limit
   \<and> searchChunks engine_sort rnd db queryEmbedding (Some []) limit
     = js_slice
         (engine_sort (by_similarity rnd)
            (map (\<lambda>chunk. with_similarity chunk
                              (cosineSimilarity rnd queryEmbedding (embedding chunk)))
               (store_chunks db)))
         0 limit
   \<and> ((\<forall>cmp xs. mset (engine_sort cmp xs) = mset xs) \<and> 0 \<le> limit \<longrightarrow>
        length (searchChunks engine_sort rnd db queryEmbedding (Some []) limit)
          = min (nat limit) (length (store_chunks db))
        \<and> mset (searchChunks engine_sort rnd db queryEmbedding (Some []) limit)
            \<subseteq># mset (map (\<lambda>chunk. with_similarity chunk
                                      (cosineSimilarity rnd queryEmbedding (embedding chunk)))
                        (store_chunks db))
        \<and> (length (store_chunks db) \<le> nat limit \<longrightarrow>
             mset (searchChunks engine_sort rnd db queryEmbedding (Some []) limit)
               = mset (map (\<lambda>chunk. with_similarity chunk
                                       (cosineSimilarity rnd queryEmbedding (embedding chunk)))
                         (store_chunks db))))"
proof (intro conjI impI)
  let ?scored = "map (\<lambda>chunk. with_similarity chunk
                                 (cosineSimilarity rnd queryEmbedding (embedding chunk)))
                   (store_chunks db)"
  let ?sorted = "engine_sort (by_similarity rnd) ?scored"
  let ?results = "searchChunks engine_sort rnd db queryEmbedding (Some []) limit"
  show "?results = searchChunks engine_sort rnd db queryEmbedding None limit"
    by (simp add: searchChunks_def)
  show unfolded: "?results = js_slice ?sorted 0 limit"
    by (simp add: searchChunks_def)
  assume h: "(\<forall>cmp xs. mset (engine_sort cmp xs) = mset xs) \<and> 0 \<le> limit"
  then have perm: "mset ?sorted = mset ?scored" by simp
  then have len: "length ?sorted = length (store_chunks db)"
    by (metis length_map size_mset)
  have tk: "?results = take (nat limit) ?sorted"
    using h unfolded by (simp add: js_slice_take)
  show "length ?results = min (nat limit) (length (store_chunks db))"
    by (simp add: tk len min.commute)
  show "mset ?results \<subseteq># mset ?scored"
    unfolding tk using mset_take_subseteq [of "nat limit" ?sorted] perm by simp
  show "mset ?results = mset ?scored" if "length (store_chunks db) \<le> nat limit"
    unfolding tk using that len perm by simp
qed

lemma example_search_f64:
  "map similarity (searchChunks stable_sort f64 example_db (Some [1, 0, 0, 0]) None 5)
     = [Num (3602879701896397 / 2 ^ 54), Num 0, Num 0]"
  "map chunk_id (searchChunks stable_sort f64 example_db (Some [1, 0, 0, 0]) None 5) = [1, 2, 3]"
  "map chunk_id (searchChunks stable_sort f64 example_db (Some [1, 0, 0, 0]) (Some [2]) 5) = [2]"
  by (simp_all add: searchChunks_def example_db_def example_chunk_def example_similarities_f64
        with_similarity_def stable_sort_def by_similarity_def js_sub_def js_slice_def
        js_slice_index_def f64_0 f64_neg f64_fifth_fixed_literal)

text \<open>
  On the store of three chunks, in binary64 and with a stable sort: with the empty filter
  list all three chunks are returned, the best match first, as with no filter; with the
  filter \<open>[2]\<close> only the chunk of document 2 is.
\<close>

theorem searchChunks_empty_filter_witness:
  "(\<forall>cmp xs. mset (stable_sort cmp (xs :: ScoredChunk list)) = mset xs) \<and> (0::int) \<le> 5
   \<and> length (store_chunks example_db) \<le> nat 5
   \<and> map chunk_id (searchChunks stable_sort f64 example_db (Some [1, 0, 0, 0]) (Some []) 5)
       = [1, 2, 3]
   \<and> map chunk_id (searchChunks stable_sort f64 example_db (Some [1, 0, 0, 0]) None 5)
       = [1, 2, 3]
   \<and> map chunk_id (searchChunks stable_sort f64 example_db (Some [1, 0, 0, 0]) (Some [2]) 5)
       = [2]
   \<and> length (searchChunks stable_sort f64 example_db (Some [1, 0, 0, 0]) (Some []) 5) = 3
   \<and> mset (searchChunks stable_sort f64 example_db (Some [1, 0, 0, 0]) (Some []) 5)
       = mset (map (\<lambda>chunk. with_similarity chunk
                               (cosineSimilarity f64 (Some [1, 0, 0, 0]) (embedding chunk)))
                 (store_chunks example_db))"
proof -
  let ?r = "searchChunks stable_sort f64 example_db (Some [1, 0, 0, 0]) (Some []) 5"
  have perm: "\<forall>cmp xs. mset (stable_sort cmp (xs :: ScoredChunk list)) = mset xs"
    by (simp add: stable_sort_mset)
  have n: "length (store_chunks example_db) \<le> nat 5"
    by (simp add: example_db_def)
  note t = searchChunks_empty_filter
             [of stable_sort f64 example_db "Some [1, 0, 0, 0]" 5]
  have same: "?r = searchChunks stable_sort f64 example_db (Some [1, 0, 0, 0]) None 5"
    using t by (rule conjunct1)
  have rest:
    "length ?r = min (nat 5) (length (store_chunks example_db))
     \<and> mset ?r \<subseteq># mset (map (\<lambda>chunk. with_similarity chunk
                                 (cosineSimilarity f64 (Some [1, 0, 0, 0]) (embedding chunk)))
                   (store_chunks example_db))
     \<and> (length (store_chunks example_db) \<le> nat 5 \<longrightarrow>
          mset ?r = mset (map (\<lambda>chunk. with_similarity chunk
                                 (cosineSimilarity f64 (Some [1, 0, 0, 0]) (embedding chunk)))
                   (store_chunks example_db)))"
    by (rule mp [OF conjunct2 [OF conjunct2 [OF t]]]) (simp add: stable_sort_mset)
  then have len: "length ?r = 3" by (simp add: example_db_def)
  from rest n have all: "mset ?r = mset (map (\<lambda>chunk. with_similarity chunk
                                 (cosineSimilarity f64 (Some [1, 0, 0, 0]) (embedding chunk)))
                   (store_chunks example_db))"
    by blast
  note none = example_search_f64(2)
  note two = example_search_f64(3)
  from perm n same none two len all show ?thesis by simp
qed
section \<open>Properties of the embedding client\<close>

lemma withRetry_loop_stop:
  assumes "int attempt \<le> maxRetries"
    and "int attempt = maxRetries \<or> \<not> (\<exists>e. fn attempt = Inl e \<and> isRateLimit e)"
  shows "withRetry_loop fn maxRetries attempt sleeps =
           ((case fn attempt of Inl e \<Rightarrow> Inl e | Inr v \<Rightarrow> Inr (Some v)), sleeps, attempt)"
  using assms by (subst withRetry_loop.simps) (auto split: sum.splits)

lemma withRetry_loop_continue:
  assumes "int attempt < maxRetries" and "fn attempt = Inl e" and "isRateLimit e"
  shows "withRetry_loop fn maxRetries attempt sleeps =
           withRetry_loop fn maxRetries (attempt + 1) (sleeps @ [15000 * 2 ^ (attempt - 1)])"
  using assms by (subst withRetry_loop.simps) simp

lemma withRetry_loop_first:
  assumes "fn 1 = Inl e" and "isRateLimit e"
  shows "withRetry_loop fn 3 1 sleeps = withRetry_loop fn 3 2 (sleeps @ [15000])"
  using withRetry_loop_continue [of 1 3 fn e sleeps] assms by (simp add: numeral_2_eq_2)

lemma withRetry_loop_second:
  assumes "fn 2 = Inl e" and "isRateLimit e"
  shows "withRetry_loop fn 3 2 sleeps = withRetry_loop fn 3 3 (sleeps @ [30000])"
  using withRetry_loop_continue [of 2 3 fn e sleeps] assms by (simp add: numeral_3_eq_3)

text \<open>
  C9. With a client in place, \<open>getEmbedding\<close> makes \<open>n\<close> requests, \<open>n\<close> from 1 to 3, where
  \<open>n\<close> is the first attempt that is the third one or whose outcome is not a rate-limit
  failure (all attempts before it failed with a message that mentions 429, quota or rate).
  The caller gets the outcome of attempt \<open>n\<close>, value or error; before each retry the client
  sleeps 15000 ms times 2 to the number of retries already made (15 s, then 30 s). So a
  failure that is not a rate-limit failure propagates at once, on the first attempt without
  any retry or delay, and a rate-limit failure on the third attempt propagates.
\<close>

theorem getEmbedding_retry:
  assumes "1 \<le> n" and "n \<le> 3"
    and "\<And>k. 1 \<le> k \<Longrightarrow> k < n \<Longrightarrow> \<exists>e. embedContent k text = Inl e \<and> isRateLimit e"
    and "n = 3 \<or> \<not> (\<exists>e. embedContent n text = Inl e \<and> isRateLimit e)"
  shows "getEmbedding (Some client) embedContent text =
           ((case embedContent n text of Inl e \<Rightarrow> Inl e | Inr v \<Rightarrow> Inr (Some v)),
            map (\<lambda>k. 15000 * 2 ^ k) [0..<n - 1], n)"
proof -
  let ?fn = "\<lambda>attempt. embedContent attempt text"
  from assms(1,2) consider "n = 1" | "n = 2" | "n = 3" by linarith
  then show ?thesis
  proof cases
    case 1
    with assms(4) show ?thesis
      using withRetry_loop_stop [of 1 3 ?fn "[]"]
      by (simp add: getEmbedding_def withRetry_def)
  next
    case 2
    from assms(3) [of 1] 2 obtain e1 where e1: "embedContent 1 text = Inl e1" "isRateLimit e1"
      by auto
    have "withRetry_loop ?fn 3 1 [] = withRetry_loop ?fn 3 2 [15000]"
      using withRetry_loop_first [of ?fn e1 "[]"] e1 by simp
    also have "\<dots> = ((case embedContent 2 text of Inl e \<Rightarrow> Inl e | Inr v \<Rightarrow> Inr (Some v)),
                      [15000], 2)"
      using assms(4) 2 withRetry_loop_stop [of 2 3 ?fn "[15000]"] by simp
    finally show ?thesis
      using 2 by (simp add: getEmbedding_def withRetry_def upt_rec)
  next
    case 3
    from assms(3) [of 1] 3 obtain e1 where e1: "embedContent 1 text = Inl e1" "isRateLimit e1"
      by auto
    from assms(3) [of 2] 3 obtain e2 where e2: "embedContent 2 text = Inl e2" "isRateLimit e2"
      by auto
    have "withRetry_loop ?fn 3 1 [] = withRetry_loop ?fn 3 2 [15000]"
      using withRetry_loop_first [of ?fn e1 "[]"] e1 by simp
    also have "\<dots> = withRetry_loop ?fn 3 3 [15000, 30000]"
      using withRetry_loop_second [of ?fn e2 "[15000]"] e2 by simp
    also have "\<dots> = ((case embedContent 3 text of Inl e \<Rightarrow> Inl e | Inr v \<Rightarrow> Inr (Some v)),
                      [15000, 30000], 3)"
      using withRetry_loop_stop [of 3 3 ?fn "[15000, 30000]"] by simp
    finally show ?thesis
      using 3 by (simp add: getEmbedding_def withRetry_def upt_rec)
  qed
qed

text \<open>Every run of the client is covered: such a number of attempts always exists.\<close>

lemma getEmbedding_attempts_exist:
  fixes embedContent :: "nat \<Rightarrow> jsstring option \<Rightarrow> jserror + real list"
  shows "\<exists>n. 1 \<le> n \<and> n \<le> 3
       \<and> (\<forall>k. 1 \<le> k \<and> k < n \<longrightarrow> (\<exists>e. embedContent k text = Inl e \<and> isRateLimit e))
       \<and> (n = 3 \<or> \<not> (\<exists>e. embedContent n text = Inl e \<and> isRateLimit e))"
proof (cases "\<exists>e. embedContent 1 text = Inl e \<and> isRateLimit e")
  case False
  then show ?thesis by (intro exI [of _ 1]) auto
next
  case first: True
  show ?thesis
  proof (cases "\<exists>e. embedContent 2 text = Inl e \<and> isRateLimit e")
    case False
    have "\<exists>e. embedContent k text = Inl e \<and> isRateLimit e" if "1 \<le> k \<and> k < 2" for k
    proof -
      from that have "k = 1" by simp
      with first show ?thesis by simp
    qed
    with False show ?thesis by (intro exI [of _ 2]) simp
  next
    case True
    have "\<exists>e. embedContent k text = Inl e \<and> isRateLimit e" if "1 \<le> k \<and> k < 3" for k
    proof -
      from that have "k = 1 \<or> k = 2" by auto
      with first True show ?thesis by auto
    qed
    then show ?thesis by (intro exI [of _ 3]) simp
  qed
qed

lemma isRateLimit_rate_limited_error: "isRateLimit rate_limited_error"
  by (simp add: isRateLimit_def rate_limited_error_def ascii_def)

lemma isRateLimit_network_error: "\<not> isRateLimit network_error"
  by (simp add: isRateLimit_def network_error_def ascii_def)

theorem getEmbedding_retry_witness:
  "getEmbedding (Some ()) always_rate_limited (Some (ascii ''query''))
     = (Inl rate_limited_error, [15000, 30000], 3)
   \<and> getEmbedding (Some ()) always_down (Some (ascii ''query''))
     = (Inl network_error, [], 1)"
proof -
  have a: "getEmbedding (Some ()) always_rate_limited (Some (ascii ''query''))
             = (Inl rate_limited_error, [15000, 30000], 3)"
    using getEmbedding_retry [of 3 always_rate_limited "Some (ascii ''query'')" "()"]
    by (simp add: always_rate_limited_def isRateLimit_rate_limited_error upt_rec)
  have b: "getEmbedding (Some ()) always_down (Some (ascii ''query''))
             = (Inl network_error, [], 1)"
    using getEmbedding_retry [of 1 always_down "Some (ascii ''query'')" "()"]
    by (simp add: always_down_def isRateLimit_network_error)
  from a b show ?thesis by (rule conjI)
qed

section \<open>Properties of the document classifier\<close>

text \<open>
  C8, as the code has it. On a document without pages the classifier does not fail: the
  loop is skipped, the density is \<open>0 / 0\<close>, NaN, and since the character count 0 is below
  100 the document is classified as image-based with confidence \<open>high\<close>. This holds for
  every sample size and rounding of the arithmetic.
\<close>

theorem detectImageBasedPDF_no_pages:
  "detectImageBasedPDF rnd [] samplePages =
     Inr \<lparr>isImageBased = True, textDensity = NaN, totalTextLength = 0,
          pagesChecked = min samplePages 0, confidence = ascii ''high''\<rparr>"
  by (simp add: detectImageBasedPDF_def Let_def)

text \<open>
  The claim as stated fails: with the default sample size the classifier returns a
  classification for the empty document, computed from a total page area of 0.
\<close>

theorem detectImageBasedPDF_no_pages_counterexample:
  "detectImageBasedPDF f64 [] 3 =
     Inr \<lparr>isImageBased = True, textDensity = NaN, totalTextLength = 0,
          pagesChecked = 0, confidence = ascii ''high''\<rparr>"
  by (simp add: detectImageBasedPDF_def Let_def)

section \<open>Properties of hybrid extraction\<close>

lemma extract_loop_eq:
  "extract_loop pages i thr (pts, nd) =
     (pts @ map (\<lambda>(k, page). page_record thr k page) (zip [i..<i + length pages] pages),
      nd @ map fst (filter (\<lambda>(k, page). int (length (textLayer page)) < thr)
                     (zip [i..<i + length pages] pages)))"
proof (induction pages arbitrary: i pts nd)
  case Nil
  show ?case by simp
next
  case (Cons page rest)
  have z: "zip [i..<i + length (page # rest)] (page # rest)
             = (i, page) # zip [Suc i..<Suc i + length rest] rest"
    by (auto simp add: upt_rec [of i] Suc_le_eq)
  show ?case
    unfolding z by (simp add: Cons.IH page_record_def)
qed

lemma findIndex_Some:
  "findIndex p xs = Some idx \<Longrightarrow> idx < length xs \<and> p (xs ! idx)"
proof (induction xs arbitrary: idx)
  case Nil
  then show ?case by simp
next
  case (Cons x xs)
  then show ?case by (auto split: if_splits option.splits)
qed

lemma findIndex_None: "findIndex p xs = None \<Longrightarrow> \<forall>x\<in>set xs. \<not> p x"
  by (induction xs) (auto split: if_splits option.splits)

lemma merge_loop_length: "length (merge_loop rs pts) = length pts"
  by (induction rs arbitrary: pts) (auto split: option.splits)

lemma merge_loop_pageNum: "map pageNum (merge_loop rs pts) = map pageNum pts"
proof (induction rs arbitrary: pts)
  case Nil
  show ?case by simp
next
  case (Cons r rs)
  show ?case
  proof (cases "findIndex (\<lambda>p. pageNum p = ocr_pageNum r) pts")
    case None
    then show ?thesis by (simp add: Cons.IH)
  next
    case (Some idx)
    from findIndex_Some [OF Some] have idx: "idx < length pts" by simp
    have "map pageNum (pts[idx := (pts ! idx)\<lparr>ptext := ocr_text r, ocrApplied := True\<rparr>])
            = map pageNum pts"
      using idx by (simp add: map_update list_update_same_conv)
    with Some show ?thesis by (simp add: Cons.IH)
  qed
qed

lemma merge_loop_needsOCR: "map needsOCR (merge_loop rs pts) = map needsOCR pts"
proof (induction rs arbitrary: pts)
  case Nil
  show ?case by simp
next
  case (Cons r rs)
  show ?case
  proof (cases "findIndex (\<lambda>p. pageNum p = ocr_pageNum r) pts")
    case None
    then show ?thesis by (simp add: Cons.IH)
  next
    case (Some idx)
    from findIndex_Some [OF Some] have idx: "idx < length pts" by simp
    have "map needsOCR (pts[idx := (pts ! idx)\<lparr>ptext := ocr_text r, ocrApplied := True\<rparr>])
            = map needsOCR pts"
      using idx by (simp add: map_update list_update_same_conv)
    with Some show ?thesis by (simp add: Cons.IH)
  qed
qed

lemma merge_loop_untouched:
  "i < length pts \<Longrightarrow> pageNum (pts ! i) \<notin> ocr_pageNum ` set rs \<Longrightarrow> merge_loop rs pts ! i = pts ! i"
proof (induction rs arbitrary: pts)
  case Nil
  show ?case by simp
next
  case (Cons r rs)
  show ?case
  proof (cases "findIndex (\<lambda>p. pageNum p = ocr_pageNum r) pts")
    case None
    with Cons show ?thesis by simp
  next
    case (Some idx)
    from findIndex_Some [OF Some] have idx: "idx < length pts" "pageNum (pts ! idx) = ocr_pageNum r"
      by simp_all
    with Cons.prems have ne: "idx \<noteq> i" by auto
    let ?pts = "pts[idx := (pts ! idx)\<lparr>ptext := ocr_text r, ocrApplied := True\<rparr>]"
    have "merge_loop rs ?pts ! i = ?pts ! i"
      using Cons.prems ne by (intro Cons.IH) auto
    with Some ne show ?thesis by simp
  qed
qed

lemma merge_loop_keeps_applied:
  "i < length pts \<Longrightarrow> ocrApplied (pts ! i) \<Longrightarrow> ocrApplied (merge_loop rs pts ! i)"
proof (induction rs arbitrary: pts)
  case Nil
  then show ?case by simp
next
  case (Cons r rs)
  show ?case
  proof (cases "findIndex (\<lambda>p. pageNum p = ocr_pageNum r) pts")
    case None
    with Cons show ?thesis by simp
  next
    case (Some idx)
    let ?pts = "pts[idx := (pts ! idx)\<lparr>ptext := ocr_text r, ocrApplied := True\<rparr>]"
    have "ocrApplied (?pts ! i)"
      using Cons.prems by (cases "idx = i") auto
    then have "ocrApplied (merge_loop rs ?pts ! i)"
      using Cons.prems by (intro Cons.IH) auto
    with Some show ?thesis by simp
  qed
qed

lemma merge_loop_applied:
  "distinct (map pageNum pts) \<Longrightarrow> i < length pts \<Longrightarrow> pageNum (pts ! i) \<in> ocr_pageNum ` set rs
     \<Longrightarrow> ocrApplied (merge_loop rs pts ! i)"
proof (induction rs arbitrary: pts)
  case Nil
  then show ?case by simp
next
  case (Cons r rs)
  show ?case
  proof (cases "findIndex (\<lambda>p. pageNum p = ocr_pageNum r) pts")
    case None
    from findIndex_None [OF None] Cons.prems(2) have "pageNum (pts ! i) \<noteq> ocr_pageNum r"
      by (metis nth_mem)
    with Cons None show ?thesis by simp
  next
    case (Some idx)
    from findIndex_Some [OF Some] have idx: "idx < length pts" "pageNum (pts ! idx) = ocr_pageNum r"
      by simp_all
    let ?pts = "pts[idx := (pts ! idx)\<lparr>ptext := ocr_text r, ocrApplied := True\<rparr>]"
    have pn: "map pageNum ?pts = map pageNum pts"
      using idx by (simp add: map_update list_update_same_conv)
    show ?thesis
    proof (cases "pageNum (pts ! i) = ocr_pageNum r")
      case True
      with idx Cons.prems(1,2) have "idx = i"
        by (metis distinct_conv_nth length_map nth_map)
      then have "ocrApplied (?pts ! i)" using Cons.prems(2) by simp
      then have "ocrApplied (merge_loop rs ?pts ! i)"
        using Cons.prems(2) by (intro merge_loop_keeps_applied) auto
      with Some show ?thesis by simp
    next
      case False
      with idx have ne: "idx \<noteq> i" by auto
      have "ocrApplied (merge_loop rs ?pts ! i)"
      proof (rule Cons.IH)
        show "distinct (map pageNum ?pts)" using pn Cons.prems(1) by simp
        show "i < length ?pts" using Cons.prems(2) by simp
        show "pageNum (?pts ! i) \<in> ocr_pageNum ` set rs"
          using Cons.prems(3) False ne by auto
      qed
      with Some show ?thesis by simp
    qed
  qed
qed

lemma ocrPDFPages_pageNums: "ocrPDFPages ocr ps = Inr rs \<Longrightarrow> map ocr_pageNum rs = ps"
  by (induction ps arbitrary: rs) (auto split: sum.splits)

lemma ocrPDFPages_returns:
  "(\<And>p. p \<in> set ps \<Longrightarrow> \<exists>t. ocr p = Inr t) \<Longrightarrow> \<exists>rs. ocrPDFPages ocr ps = Inr rs"
proof (induction ps)
  case Nil
  show ?case by simp
next
  case (Cons p ps)
  from Cons.prems [of p] obtain t where t: "ocr p = Inr t" by auto
  from Cons obtain rs where "ocrPDFPages ocr ps = Inr rs" by auto
  with t show ?case by simp
qed

lemma extract_pages:
  assumes "extract_loop pdfDoc 1 thr ([], []) = (pts, nd)"
  shows "length pts = length pdfDoc"
    and "\<And>i. i < length pdfDoc \<Longrightarrow> pts ! i = page_record thr (i + 1) (pdfDoc ! i)"
    and "nd = [k \<leftarrow> [1..<length pdfDoc + 1]. int (length (textLayer (pdfDoc ! (k - 1)))) < thr]"
    and "map pageNum pts = [1..<length pdfDoc + 1]"
proof -
  from assms have "(pts, nd) = extract_loop pdfDoc 1 thr ([], [])" by simp
  then have pts: "pts = map (\<lambda>(k, page). page_record thr k page) (zip [1..<1 + length pdfDoc] pdfDoc)"
    and nd: "nd = map fst (filter (\<lambda>(k, page). int (length (textLayer page)) < thr)
                     (zip [1..<1 + length pdfDoc] pdfDoc))"
    by (simp_all only: extract_loop_eq prod.inject append_Nil)
  show "length pts = length pdfDoc" by (simp add: pts del: upt_Suc)
  show "pts ! i = page_record thr (i + 1) (pdfDoc ! i)" if "i < length pdfDoc" for i
    using that by (simp add: pts del: upt_Suc)
  have zz: "zip [1..<1 + length pdfDoc] pdfDoc = map (\<lambda>k. (k, pdfDoc ! (k - 1))) [1..<length pdfDoc + 1]"
    by (rule nth_equalityI) (auto simp del: upt_Suc)
  show "nd = [k \<leftarrow> [1..<length pdfDoc + 1]. int (length (textLayer (pdfDoc ! (k - 1)))) < thr]"
    unfolding nd zz by (simp add: filter_map comp_def del: upt_Suc)
  show "map pageNum pts = [1..<length pdfDoc + 1]"
    unfolding pts zz by (rule nth_equalityI) (auto simp: page_record_def simp del: upt_Suc)
qed

lemma set_js_slice: "set (js_slice xs a b) \<subseteq> set xs"
  unfolding js_slice_def Let_def
  by (meson set_drop_subset set_take_subset subset_trans)

lemma hybridParsePDF_merged:
  assumes "hybridParsePDF pdfDoc groqApiKey thr maxOCRPages ocr = Inr res"
    and "extract_loop pdfDoc 1 thr ([], []) = (pts, nd)"
  shows "stats res = \<lparr>totalPages = length pdfDoc,
                       textLayerPages = length (filter (\<lambda>p. \<not> needsOCR p) (pageTexts res)),
                       ocrPages = length (filter ocrApplied (pageTexts res))\<rparr>"
    and "length nd > 0 \<and> truthy groqApiKey \<Longrightarrow>
           \<exists>rs. ocrPDFPages ocr (js_slice nd 0 maxOCRPages) = Inr rs
                \<and> pageTexts res = merge_loop rs pts"
    and "\<not> (length nd > 0 \<and> truthy groqApiKey) \<Longrightarrow> pageTexts res = pts"
  using assms by (auto simp: hybridParsePDF_def split: if_splits sum.splits)

lemma hybridParsePDF_page:
  assumes r: "hybridParsePDF pdfDoc groqApiKey thr maxOCRPages ocr = Inr res"
    and i: "i < length pdfDoc"
  shows "pageNum (pageTexts res ! i) = i + 1"
    and "needsOCR (pageTexts res ! i) = (int (length (textLayer (pdfDoc ! i))) < thr)"
    and "\<not> needsOCR (pageTexts res ! i) \<Longrightarrow> ptext (pageTexts res ! i) = textLayer (pdfDoc ! i)"
    and "ocrApplied (pageTexts res ! i) =
           (truthy groqApiKey \<and>
            i + 1 \<in> set (js_slice
                          [k \<leftarrow> [1..<length pdfDoc + 1].
                             int (length (textLayer (pdfDoc ! (k - 1)))) < thr]
                          0 maxOCRPages))"
    and "length (pageTexts res) = length pdfDoc"
proof -
  obtain pts nd where e: "extract_loop pdfDoc 1 thr ([], []) = (pts, nd)"
    by (cases "extract_loop pdfDoc 1 thr ([], [])") auto
  note ep = extract_pages [OF e]
  note hm = hybridParsePDF_merged [OF r e]
  let ?below = "int (length (textLayer (pdfDoc ! i))) < thr"
  let ?sl = "js_slice nd 0 maxOCRPages"
  have len: "length pts = length pdfDoc" by (rule ep(1))
  have rec: "pts ! i = page_record thr (i + 1) (pdfDoc ! i)" using i by (rule ep(2))
  have pn: "pageNum (pts ! i) = i + 1" by (simp add: rec page_record_def)
  have dist: "distinct (map pageNum pts)" by (simp add: ep(4) del: upt_Suc)
  have nd_iff: "i + 1 \<in> set nd \<longleftrightarrow> ?below"
    using i by (auto simp add: ep(3) simp del: upt_Suc)
  have all:
    "length (pageTexts res) = length pdfDoc
     \<and> pageNum (pageTexts res ! i) = i + 1
     \<and> needsOCR (pageTexts res ! i) = ?below
     \<and> (\<not> needsOCR (pageTexts res ! i) \<longrightarrow> ptext (pageTexts res ! i) = textLayer (pdfDoc ! i))
     \<and> ocrApplied (pageTexts res ! i) = (truthy groqApiKey \<and> i + 1 \<in> set ?sl)"
  proof (cases "length nd > 0 \<and> truthy groqApiKey")
    case True
    from hm(2) [OF True] obtain rs where
      rs: "ocrPDFPages ocr ?sl = Inr rs" and m: "pageTexts res = merge_loop rs pts"
      by auto
    have rsp: "ocr_pageNum ` set rs = set ?sl"
      using ocrPDFPages_pageNums [OF rs] by (metis set_map)
    have l: "length (merge_loop rs pts) = length pdfDoc"
      by (simp add: merge_loop_length len)
    have "pageNum (merge_loop rs pts ! i) = map pageNum (merge_loop rs pts) ! i"
      using i l by simp
    then have a: "pageNum (merge_loop rs pts ! i) = i + 1"
      using i len pn by (simp add: merge_loop_pageNum)
    have "needsOCR (merge_loop rs pts ! i) = map needsOCR (merge_loop rs pts) ! i"
      using i l by simp
    then have b: "needsOCR (merge_loop rs pts ! i) = ?below"
      using i len by (simp add: merge_loop_needsOCR rec page_record_def)
    have c: "ptext (merge_loop rs pts ! i) = textLayer (pdfDoc ! i)" if "\<not> ?below"
    proof -
      from that nd_iff have "i + 1 \<notin> set ?sl" using set_js_slice [of nd 0 maxOCRPages] by auto
      then have "merge_loop rs pts ! i = pts ! i"
        using i len pn rsp by (intro merge_loop_untouched) auto
      with that show ?thesis by (simp add: rec page_record_def)
    qed
    have d: "ocrApplied (merge_loop rs pts ! i) = (i + 1 \<in> set ?sl)"
    proof (cases "i + 1 \<in> set ?sl")
      case True
      then have "ocrApplied (merge_loop rs pts ! i)"
        using i len pn rsp dist by (intro merge_loop_applied) auto
      with True show ?thesis by simp
    next
      case False
      then have "merge_loop rs pts ! i = pts ! i"
        using i len pn rsp by (intro merge_loop_untouched) auto
      with False show ?thesis by (simp add: rec page_record_def)
    qed
    from True a b c d l show ?thesis by (simp add: m)
  next
    case False
    from hm(3) [OF False] have m: "pageTexts res = pts" .
    from False have "\<not> (truthy groqApiKey \<and> i + 1 \<in> set ?sl)"
      using set_js_slice [of nd 0 maxOCRPages] by auto
    then show ?thesis
      using len by (auto simp add: m rec page_record_def)
  qed
  from all show "pageNum (pageTexts res ! i) = i + 1"
    and "needsOCR (pageTexts res ! i) = ?below"
    and "length (pageTexts res) = length pdfDoc" by simp_all
  from all show "ptext (pageTexts res ! i) = textLayer (pdfDoc ! i)"
    if "\<not> needsOCR (pageTexts res ! i)" using that by simp
  from all show "ocrApplied (pageTexts res ! i) =
           (truthy groqApiKey \<and>
            i + 1 \<in> set (js_slice
                          [k \<leftarrow> [1..<length pdfDoc + 1].
                             int (length (textLayer (pdfDoc ! (k - 1)))) < thr]
                          0 maxOCRPages))"
    by (simp only: ep(3))
qed

lemma hybridParsePDF_returns:
  assumes "\<And>p. \<exists>t. ocr p = Inr t"
  shows "\<exists>res. hybridParsePDF pdfDoc groqApiKey thr maxOCRPages ocr = Inr res"
proof -
  obtain pts nd where e: "extract_loop pdfDoc 1 thr ([], []) = (pts, nd)"
    by (cases "extract_loop pdfDoc 1 thr ([], [])") auto
  from ocrPDFPages_returns [of "js_slice nd 0 maxOCRPages" ocr] assms
  obtain rs where "ocrPDFPages ocr (js_slice nd 0 maxOCRPages) = Inr rs" by auto
  with e show ?thesis by (simp add: hybridParsePDF_def)
qed

lemma hybridParsePDF_length:
  assumes r: "hybridParsePDF pdfDoc groqApiKey thr maxOCRPages ocr = Inr res"
  shows "length (pageTexts res) = length pdfDoc"
proof -
  obtain pts nd where e: "extract_loop pdfDoc 1 thr ([], []) = (pts, nd)"
    by (cases "extract_loop pdfDoc 1 thr ([], [])") auto
  from hybridParsePDF_merged(2,3) [OF r e] extract_pages(1) [OF e] show ?thesis
    by (cases "length nd > 0 \<and> truthy groqApiKey") (auto simp: merge_loop_length)
qed

lemma hybridParsePDF_result:
  assumes "hybridParsePDF pdfDoc groqApiKey ocrThreshold maxOCRPages ocr = Inr res"
  shows "length (pageTexts res) = length pdfDoc
         \<and> (\<forall>i<length pdfDoc.
               pageNum (pageTexts res ! i) = i + 1
             \<and> needsOCR (pageTexts res ! i)
                 = (int (length (textLayer (pdfDoc ! i))) < ocrThreshold)
             \<and> (\<not> needsOCR (pageTexts res ! i)
                  \<longrightarrow> ptext (pageTexts res ! i) = textLayer (pdfDoc ! i))
             \<and> ocrApplied (pageTexts res ! i)
                 = (truthy groqApiKey \<and>
                    i + 1 \<in> set (js_slice
                                  [k \<leftarrow> [1..<length pdfDoc + 1].
                                     int (length (textLayer (pdfDoc ! (k - 1)))) < ocrThreshold]
                                  0 maxOCRPages)))
         \<and> textLayerPages (stats res) = length (filter (\<lambda>p. \<not> needsOCR p) (pageTexts res))
         \<and> ocrPages (stats res) = length (filter ocrApplied (pageTexts res))
         \<and> totalPages (stats res) = length pdfDoc"
proof -
  obtain pts nd where e: "extract_loop pdfDoc 1 ocrThreshold ([], []) = (pts, nd)"
    by (cases "extract_loop pdfDoc 1 ocrThreshold ([], [])") auto
  have st: "textLayerPages (stats res) = length (filter (\<lambda>p. \<not> needsOCR p) (pageTexts res))
            \<and> ocrPages (stats res) = length (filter ocrApplied (pageTexts res))
            \<and> totalPages (stats res) = length pdfDoc"
    by (simp add: hybridParsePDF_merged(1) [OF assms e])
  have pg: "\<forall>i<length pdfDoc.
               pageNum (pageTexts res ! i) = i + 1
             \<and> needsOCR (pageTexts res ! i)
                 = (int (length (textLayer (pdfDoc ! i))) < ocrThreshold)
             \<and> (\<not> needsOCR (pageTexts res ! i)
                  \<longrightarrow> ptext (pageTexts res ! i) = textLayer (pdfDoc ! i))
             \<and> ocrApplied (pageTexts res ! i)
                 = (truthy groqApiKey \<and>
                    i + 1 \<in> set (js_slice
                                  [k \<leftarrow> [1..<length pdfDoc + 1].
                                     int (length (textLayer (pdfDoc ! (k - 1)))) < ocrThreshold]
                                  0 maxOCRPages))"
    using hybridParsePDF_page [OF assms] by blast
  from hybridParsePDF_length [OF assms] pg st show ?thesis by blast
qed

lemma hybridParsePDF_returns_no_key:
  assumes "\<not> truthy groqApiKey"
  shows "\<exists>res. hybridParsePDF pdfDoc groqApiKey thr maxOCRPages ocr = Inr res"
proof -
  obtain pts nd where e: "extract_loop pdfDoc 1 thr ([], []) = (pts, nd)"
    by (cases "extract_loop pdfDoc 1 thr ([], [])") auto
  with assms show ?thesis by (simp add: hybridParsePDF_def)
qed

text \<open>
  C7. Hybrid extraction returns a result whenever the OCR service does not fail or no
  credential is present (it can only fail with an OCR failure). In every result it returns:
  there is one record per page, in page order; page \<open>i + 1\<close> is marked for OCR exactly when
  the length of its trimmed text layer is strictly below the threshold; a page that is not
  marked keeps its text layer; OCR is applied to a page exactly when a credential is present
  and the page is among the first \<open>maxOCRPages\<close> marked pages; \<open>textLayerPages\<close> is the number
  of pages not marked and \<open>ocrPages\<close> the number of pages OCR was applied to.
\<close>

theorem hybridParsePDF_pages:
  "((\<forall>p. \<exists>t. ocr p = Inr t) \<or> \<not> truthy groqApiKey
      \<longrightarrow> (\<exists>res. hybridParsePDF pdfDoc groqApiKey ocrThreshold maxOCRPages ocr = Inr res))
   \<and> (\<forall>res. hybridParsePDF pdfDoc groqApiKey ocrThreshold maxOCRPages ocr = Inr res \<longrightarrow>
         length (pageTexts res) = length pdfDoc
         \<and> (\<forall>i<length pdfDoc.
               pageNum (pageTexts res ! i) = i + 1
             \<and> needsOCR (pageTexts res ! i)
                 = (int (length (textLayer (pdfDoc ! i))) < ocrThreshold)
             \<and> (\<not> needsOCR (pageTexts res ! i)
                  \<longrightarrow> ptext (pageTexts res ! i) = textLayer (pdfDoc ! i))
             \<and> ocrApplied (pageTexts res ! i)
                 = (truthy groqApiKey \<and>
                    i + 1 \<in> set (js_slice
                                  [k \<leftarrow> [1..<length pdfDoc + 1].
                                     int (length (textLayer (pdfDoc ! (k - 1)))) < ocrThreshold]
                                  0 maxOCRPages)))
         \<and> textLayerPages (stats res) = length (filter (\<lambda>p. \<not> needsOCR p) (pageTexts res))
         \<and> ocrPages (stats res) = length (filter ocrApplied (pageTexts res))
         \<and> totalPages (stats res) = length pdfDoc)"
proof (rule conjI)
  show "(\<forall>p. \<exists>t. ocr p = Inr t) \<or> \<not> truthy groqApiKey
          \<longrightarrow> (\<exists>res. hybridParsePDF pdfDoc groqApiKey ocrThreshold maxOCRPages ocr = Inr res)"
    using hybridParsePDF_returns [of ocr] hybridParsePDF_returns_no_key [of groqApiKey] by blast
next
  show "\<forall>res. hybridParsePDF pdfDoc groqApiKey ocrThreshold maxOCRPages ocr = Inr res \<longrightarrow>
         length (pageTexts res) = length pdfDoc
         \<and> (\<forall>i<length pdfDoc.
               pageNum (pageTexts res ! i) = i + 1
             \<and> needsOCR (pageTexts res ! i)
                 = (int (length (textLayer (pdfDoc ! i))) < ocrThreshold)
             \<and> (\<not> needsOCR (pageTexts res ! i)
                  \<longrightarrow> ptext (pageTexts res ! i) = textLayer (pdfDoc ! i))
             \<and> ocrApplied (pageTexts res ! i)
                 = (truthy groqApiKey \<and>
                    i + 1 \<in> set (js_slice
                                  [k \<leftarrow> [1..<length pdfDoc + 1].
                                     int (length (textLayer (pdfDoc ! (k - 1)))) < ocrThreshold]
                                  0 maxOCRPages)))
         \<and> textLayerPages (stats res) = length (filter (\<lambda>p. \<not> needsOCR p) (pageTexts res))
         \<and> ocrPages (stats res) = length (filter ocrApplied (pageTexts res))
         \<and> totalPages (stats res) = length pdfDoc"
    by (intro allI impI) (rule hybridParsePDF_result)
qed

lemma textLayer_text_page: "textLayer text_page = replicate 1000 97"
  by (simp add: textLayer_def text_page_def js_trim_def is_js_space_def ascii_def)

lemma hybridParsePDF_text_pdf:
  "hybridParsePDF text_pdf (Some (ascii ''gsk'')) 100 999 failing_ocr =
     Inr \<lparr>fullText = replicate 1000 97 @ [10, 10] @ replicate 1000 97 @ [10, 10] @ replicate 1000 97,
          pageTexts =
            [\<lparr>pageNum = 1, ptext = replicate 1000 97, needsOCR = False, ocrApplied = False\<rparr>,
             \<lparr>pageNum = 2, ptext = replicate 1000 97, needsOCR = False, ocrApplied = False\<rparr>,
             \<lparr>pageNum = 3, ptext = replicate 1000 97, needsOCR = False, ocrApplied = False\<rparr>],
          stats = \<lparr>totalPages = 3, textLayerPages = 3, ocrPages = 0\<rparr>\<rparr>"
  by (simp add: hybridParsePDF_def text_pdf_def textLayer_text_page)

text \<open>
  The scenario of the specification: a text PDF of 3 pages with 1000 characters each and
  the threshold 100 gives \<open>textLayerPages = 3\<close> and \<open>ocrPages = 0\<close>, no page is marked and
  every page keeps its text layer.
\<close>

theorem hybridParsePDF_pages_witness:
  "\<not> isl (hybridParsePDF text_pdf (Some (ascii ''gsk'')) 100 999 failing_ocr)
   \<and> textLayerPages
        (stats (projr (hybridParsePDF text_pdf (Some (ascii ''gsk'')) 100 999 failing_ocr))) = 3
   \<and> ocrPages
        (stats (projr (hybridParsePDF text_pdf (Some (ascii ''gsk'')) 100 999 failing_ocr))) = 0
   \<and> needsOCR
        (pageTexts (projr (hybridParsePDF text_pdf (Some (ascii ''gsk'')) 100 999 failing_ocr)) ! 2)
       = False
   \<and> ptext
        (pageTexts (projr (hybridParsePDF text_pdf (Some (ascii ''gsk'')) 100 999 failing_ocr)) ! 2)
       = replicate 1000 97"
proof -
  let ?res = "projr (hybridParsePDF text_pdf (Some (ascii ''gsk'')) 100 999 failing_ocr)"
  have r: "hybridParsePDF text_pdf (Some (ascii ''gsk'')) 100 999 failing_ocr = Inr ?res"
    by (simp add: hybridParsePDF_text_pdf)
  have p2: "text_pdf ! 2 = text_page" by (simp add: text_pdf_def)
  from r hybridParsePDF_pages [of failing_ocr "Some (ascii ''gsk'')" text_pdf 100 999]
  have "needsOCR (pageTexts ?res ! 2) = (int (length (textLayer (text_pdf ! 2))) < 100)"
    and "\<not> needsOCR (pageTexts ?res ! 2) \<longrightarrow> ptext (pageTexts ?res ! 2) = textLayer (text_pdf ! 2)"
    by (simp_all add: text_pdf_def)
  then have "needsOCR (pageTexts ?res ! 2) = False"
    and "ptext (pageTexts ?res ! 2) = replicate 1000 97"
    by (simp_all add: p2 textLayer_text_page)
  then show ?thesis
    by (simp add: hybridParsePDF_text_pdf)
qed

section \<open>Properties of the chat handler\<close>

lemma searchChunks_chatHistory_update:
  "searchChunks engine_sort rnd (db'\<lparr>store_chatHistory := h\<rparr>) q f l
     = searchChunks engine_sort rnd db' q f l"
  by (simp add: searchChunks_def)

text \<open>
  C1. In a turn that is accepted (a non-blank message, no turn in progress) and whose intent
  is \<open>search\<close>, when the embedding of the query succeeds and the vector search returns no
  result or a top result whose similarity is strictly below the threshold, the handler
  appends the user message and the fixed "no relevant information" answer to the chat and
  to the stored history, ends the turn (ready, not processing, \<open>lastChunks\<close> as before) and
  has called the intent analysis, the embedding and the search, never the generation.
  This holds whatever the engine's sort and the rounding of the arithmetic are, so for
  every list that the search returns: \<open>results\<close> is the list returned in this turn.
\<close>

theorem handleSendMessage_no_result:
  assumes "js_trim message \<noteq> []" and "\<not> isProcessing st"
    and "svc_analyzeQueryIntent svc message (chatHistory st) = Inr intent"
    and "intent_type intent = Some (ascii ''search'')"
    and "fst (getEmbedding (svc_genAI svc) (svc_embedContent svc) (newQuery intent)) = Inr vec"
    and "results =
           searchChunks engine_sort rnd (store st) vec
             (if length (selectedCategories st) > 0
              then Some (map doc_id
                     (filter (\<lambda>d. category d \<in> set (selectedCategories st)) (documents st)))
              else None) 5"
    and "results = [] \<or> js_lt (similarity (hd results)) (Num (similarityThreshold st))"
  shows "chatHistory (handleSendMessage engine_sort rnd svc st message)
           = chatHistory st @ [\<lparr>msg_role = User, msg_content = message\<rparr>, noResultMsg]
         \<and> store_chatHistory (store (handleSendMessage engine_sort rnd svc st message))
           = store_chatHistory (store st) @ [\<lparr>msg_role = User, msg_content = message\<rparr>, noResultMsg]
         \<and> calls (handleSendMessage engine_sort rnd svc st message)
           = calls st @ [IntentCall, EmbedCall, SearchCall]
         \<and> isProcessing (handleSendMessage engine_sort rnd svc st message) = False
         \<and> status (handleSendMessage engine_sort rnd svc st message) = (Info, Some status_ready)
         \<and> lastChunks (handleSendMessage engine_sort rnd svc st message) = lastChunks st
         \<and> GenerateCall \<notin> set (calls (handleSendMessage engine_sort rnd svc st message))
             - set (calls st)"
proof -
  have c: "(case results of [] \<Rightarrow> True
            | result0 # _ \<Rightarrow> js_lt (similarity result0) (Num (similarityThreshold st)))"
    using assms(7) by (cases results) auto
  show ?thesis
    using assms(1-5) c unfolding assms(6)
    by (simp add: handleSendMessage_def try_block_def Let_def searchChunks_chatHistory_update
          saveChatMessage_def)
qed

lemma example_embedding:
  "fst (getEmbedding (svc_genAI example_services) (svc_embedContent example_services) q)
     = Inr (Some [1, 0, 0, 0])"
  by (simp add: example_services_def getEmbedding_def withRetry_def withRetry_loop.simps)

text \<open>
  The scenario of the specification, in binary64: the best match has similarity 0.2 (the
  double nearest to it), the threshold is 0.25. The turn ends with the fixed answer and
  without a generation call.
\<close>

theorem handleSendMessage_no_result_witness:
  "chatHistory (handleSendMessage stable_sort f64 example_services example_state example_query)
     = [\<lparr>msg_role = User, msg_content = example_query\<rparr>, noResultMsg]
   \<and> calls (handleSendMessage stable_sort f64 example_services example_state example_query)
     = [IntentCall, EmbedCall, SearchCall]
   \<and> GenerateCall
       \<notin> set (calls (handleSendMessage stable_sort f64 example_services example_state example_query))
   \<and> map similarity (searchChunks stable_sort f64 example_db (Some [1, 0, 0, 0]) None 5)
     = [Num (3602879701896397 / 2 ^ 54), Num 0, Num 0]"
proof -
  let ?results = "searchChunks stable_sort f64 example_db (Some [1, 0, 0, 0]) None 5"
  let ?intent = "\<lparr>intent_type = Some (ascii ''search''), newQuery = Some example_query\<rparr>"
  note sims = example_search_f64(1)
  have h1: "js_trim example_query \<noteq> []"
    by (simp add: example_query_def js_trim_def ascii_def is_js_space_def)
  have h2: "\<not> isProcessing example_state"
    by (simp add: example_state_def)
  have h3: "svc_analyzeQueryIntent example_services example_query (chatHistory example_state)
              = Inr ?intent"
    by (simp add: example_services_def)
  have h4: "intent_type ?intent = Some (ascii ''search'')" by simp
  have h5: "fst (getEmbedding (svc_genAI example_services) (svc_embedContent example_services)
                   (newQuery ?intent)) = Inr (Some [1, 0, 0, 0])"
    by (rule example_embedding)
  have h6: "?results =
           searchChunks stable_sort f64 (store example_state) (Some [1, 0, 0, 0])
             (if length (selectedCategories example_state) > 0
              then Some (map doc_id
                     (filter (\<lambda>d. category d \<in> set (selectedCategories example_state))
                        (documents example_state)))
              else None) 5"
    by (simp add: example_state_def)
  have "similarity (hd ?results) = hd (map similarity ?results)"
    using sims by (cases ?results) auto
  then have h7: "?results = [] \<or> js_lt (similarity (hd ?results)) (Num (similarityThreshold example_state))"
    by (simp add: sims example_state_def)
  from handleSendMessage_no_result [OF h1 h2 h3 h4 h5 h6 h7] sims
  show ?thesis
    by (simp add: example_state_def)
qed
section \<open>Properties of the chunking engine\<close>

lemma js_trim_length: "length (js_trim s) \<le> length s"
proof -
  have "length (js_trim s) \<le> length (dropWhile is_js_space s)"
    unfolding js_trim_def by (metis length_dropWhile_le length_rev)
  also have "\<dots> \<le> length s" by (rule length_dropWhile_le)
  finally show ?thesis .
qed

lemma js_lastIndexOf_bounds:
  "js_lastIndexOf s c fromIndex \<le> max 0 fromIndex
   \<and> js_lastIndexOf s c fromIndex < int (length s)
   \<and> - 1 \<le> js_lastIndexOf s c fromIndex"
proof (cases "filter (\<lambda>i. s ! i = c) (rev [0..<min (nat (max 0 fromIndex) + 1) (length s)])")
  case Nil
  then show ?thesis by (simp add: js_lastIndexOf_def)
next
  case (Cons i is')
  then have "i \<in> set (filter (\<lambda>i. s ! i = c) (rev [0..<min (nat (max 0 fromIndex) + 1) (length s)]))"
    by simp
  then have "i < min (nat (max 0 fromIndex) + 1) (length s)" by simp
  with Cons show ?thesis by (auto simp add: js_lastIndexOf_def)
qed

lemma find_break_cases:
  "find_break s m start e bps = e
   \<or> (\<exists>lb. find_break s m start e bps = lb + 1
          \<and> real_of_int lb > real_of_int start + real_of_int m / 2
          \<and> lb \<le> max 0 e \<and> lb < int (length s))"
proof (induction bps)
  case Nil
  show ?case by simp
next
  case (Cons bp bps)
  show ?case
  proof (cases "real_of_int (js_lastIndexOf s bp e) > real_of_int start + real_of_int m / 2")
    case True
    then show ?thesis
      using js_lastIndexOf_bounds [of s bp e] by (auto simp: Let_def)
  next
    case False
    with Cons show ?thesis by (simp add: Let_def)
  qed
qed

lemma js_substring_length:
  assumes "start \<le> e" and "0 \<le> start \<longrightarrow> e \<le> start + m + 1" and "start < 0 \<longrightarrow> e \<le> m + 1"
    and "0 \<le> m"
  shows "int (length (js_substring s start e)) \<le> m + 1"
  using assms by (auto simp: js_substring_def Let_def min_def max_def)

lemma split_end_cases:
  fixes s :: jsstring and m start :: int
  defines "e \<equiv> (if start + m < int (length s)
                   then find_break s m start (start + m) breakPoints else start + m)"
  shows "e = start + m
         \<or> (start + m < int (length s) \<and>
             (\<exists>lb. e = lb + 1 \<and> real_of_int lb > real_of_int start + real_of_int m / 2
                   \<and> lb \<le> max 0 (start + m) \<and> lb < int (length s)))"
  using find_break_cases [of s m start "start + m" breakPoints]
  by (auto simp: e_def)

lemma split_piece_length:
  fixes s :: jsstring and m start :: int
  assumes "0 \<le> m"
  shows "int (length (js_trim (js_substring s start
            (if start + m < int (length s)
             then find_break s m start (start + m) breakPoints else start + m)))) \<le> m + 1"
proof -
  let ?e = "if start + m < int (length s)
            then find_break s m start (start + m) breakPoints else start + m"
  have "int (length (js_substring s start ?e)) \<le> m + 1"
  proof (rule js_substring_length)
    show "start \<le> ?e" using split_end_cases [of start m s] assms by auto
    show "0 \<le> start \<longrightarrow> ?e \<le> start + m + 1" using split_end_cases [of start m s] assms by auto
    show "start < 0 \<longrightarrow> ?e \<le> m + 1" using split_end_cases [of start m s] assms by auto
    show "0 \<le> m" by (rule assms)
  qed
  moreover have "length (js_trim (js_substring s start ?e)) \<le> length (js_substring s start ?e)"
    by (rule js_trim_length)
  ultimately show ?thesis by linarith
qed

lemma split_next_start:
  fixes s :: jsstring and m start :: int
  assumes "start < int (length s)" and "m \<le> 50"
  shows "(if start + m < int (length s)
          then find_break s m start (start + m) breakPoints else start + m) - 50
           < int (length s)"
  using split_end_cases [of start m s] assms by auto

lemma split_progress:
  fixes s :: jsstring and m start :: int
  assumes "98 \<le> m"
  shows "start < (if start + m < int (length s)
                  then find_break s m start (start + m) breakPoints else start + m) - 50"
  using split_end_cases [of start m s] assms by auto

lemma chunkLongSentence_loop_partial:
  assumes ret: "chunkLongSentence_loop s m start acc = Some r"
  shows "(start < int (length s) \<longrightarrow> 50 < m)
         \<and> ((\<forall>c\<in>set acc. int (length c) \<le> m + 1) \<longrightarrow> (\<forall>c\<in>set r. int (length c) \<le> m + 1))"
proof (rule chunkLongSentence_loop.raw_induct
         [where P = "\<lambda>s m start acc r.
             (start < int (length s) \<longrightarrow> 50 < m)
             \<and> ((\<forall>c\<in>set acc. int (length c) \<le> m + 1)
                  \<longrightarrow> (\<forall>c\<in>set r. int (length c) \<le> m + 1))", OF _ ret])
  fix f :: "jsstring \<Rightarrow> int \<Rightarrow> int \<Rightarrow> jsstring list \<Rightarrow> jsstring list option"
    and s :: jsstring and m start :: int and acc r :: "jsstring list"
  let ?e = "if start + m < int (length s)
            then find_break s m start (start + m) breakPoints else start + m"
  let ?piece = "js_trim (js_substring s start ?e)"
  assume ih: "\<And>s m start acc r. f s m start acc = Some r \<Longrightarrow>
             (start < int (length s) \<longrightarrow> 50 < m)
             \<and> ((\<forall>c\<in>set acc. int (length c) \<le> m + 1)
                  \<longrightarrow> (\<forall>c\<in>set r. int (length c) \<le> m + 1))"
    and step: "(if start < int (length s) then f s m (?e - 50) (acc @ [?piece]) else Some acc)
                 = Some r"
  show "(start < int (length s) \<longrightarrow> 50 < m)
        \<and> ((\<forall>c\<in>set acc. int (length c) \<le> m + 1) \<longrightarrow> (\<forall>c\<in>set r. int (length c) \<le> m + 1))"
  proof (cases "start < int (length s)")
    case False
    with step show ?thesis by auto
  next
    case True
    with step have call: "f s m (?e - 50) (acc @ [?piece]) = Some r" by simp
    note ih' = ih [OF call]
    have big: "50 < m"
    proof (rule ccontr)
      assume n: "\<not> 50 < m"
      then have "m \<le> 50" by simp
      from split_next_start [OF True this] ih' n show False by blast
    qed
    then have "int (length ?piece) \<le> m + 1" by (intro split_piece_length) simp
    with ih' big show ?thesis by auto
  qed
qed

text \<open>
  With a limit of at most 50 the forced split of a sentence does not return: \<open>start\<close> never
  gets past the end of the sentence.
\<close>

lemma chunkLongSentence_diverges:
  assumes "maxSize \<le> 50" and "sentence \<noteq> []"
  shows "chunkLongSentence sentence maxSize = None"
proof (cases "chunkLongSentence sentence maxSize")
  case None
  then show ?thesis .
next
  case (Some r)
  from assms(2) have "0 < int (length sentence)" by (cases sentence) auto
  with chunkLongSentence_loop_partial [OF Some [unfolded chunkLongSentence_def]] assms(1)
  show ?thesis by simp
qed

lemma chunkLongSentence_loop_returns:
  assumes "98 \<le> m"
  shows "\<exists>r. chunkLongSentence_loop s m start acc = Some r"
proof (induction "nat (int (length s) - start)" arbitrary: start acc rule: less_induct)
  case less
  show ?case
  proof (cases "start < int (length s)")
    case False
    then show ?thesis by (subst chunkLongSentence_loop.simps) simp
  next
    case True
    let ?e = "if start + m < int (length s)
              then find_break s m start (start + m) breakPoints else start + m"
    from split_progress [OF assms, of start s] True
    have "nat (int (length s) - (?e - 50)) < nat (int (length s) - start)" by linarith
    from less [OF this] obtain r where
      "chunkLongSentence_loop s m (?e - 50) (acc @ [js_trim (js_substring s start ?e)]) = Some r"
      by blast
    with True show ?thesis by (subst chunkLongSentence_loop.simps) simp
  qed
qed

lemma foldl_lengths:
  "foldl (\<lambda>sum s. sum + int (length s)) a xs = a + (\<Sum>s\<leftarrow>xs. int (length s))"
  by (induction xs arbitrary: a) simp_all

lemma js_join_length:
  "xs \<noteq> [] \<Longrightarrow> int (length (js_join [32] xs)) = (\<Sum>s\<leftarrow>xs. int (length s)) + int (length xs) - 1"
  by (induction "[32::nat]" xs rule: js_join.induct) simp_all

lemma sum_lengths_bounds:
  assumes "\<forall>s\<in>set xs. s \<noteq> [] \<and> int (length s) \<le> m"
  shows "int (length xs) \<le> (\<Sum>s\<leftarrow>xs. int (length s))"
    and "(\<Sum>s\<leftarrow>xs. int (length s)) \<le> int (length xs) * m"
  using assms
proof (induction xs)
  case Nil
  { case 1 show ?case by simp }
  { case 2 show ?case by simp }
next
  case (Cons x xs)
  { case 1
    from 1 have "1 \<le> int (length x)" by (cases x) auto
    with Cons(1) 1 show ?case by simp }
  { case 2
    with Cons(2) show ?case by (simp add: distrib_right) }
qed

lemma join_bound:
  assumes "cur \<noteq> []" and el: "\<forall>s\<in>set cur. s \<noteq> [] \<and> int (length s) \<le> m"
    and "(\<Sum>s\<leftarrow>cur. int (length s)) \<le> m \<or> int (length cur) \<le> max 0 ov + 1"
  shows "int (length (js_join [32] cur)) \<le> (max 1 ov + 1) * m + max 1 ov"
proof -
  let ?k = "int (length cur)" and ?S = "\<Sum>s\<leftarrow>cur. int (length s)" and ?t = "max 1 ov"
  from assms(1) obtain x where x: "x \<in> set cur" by (cases cur) auto
  with el have "x \<noteq> []" "int (length x) \<le> m" by auto
  then have m1: "1 \<le> m" by (cases x) auto
  have k1: "1 \<le> ?k" using assms(1) by (cases cur) auto
  note sb = sum_lengths_bounds [OF el]
  have j: "int (length (js_join [32] cur)) = ?S + ?k - 1" by (rule js_join_length [OF assms(1)])
  have t1: "1 \<le> ?t" by simp
  from assms(3) show ?thesis
  proof
    assume "?S \<le> m"
    with sb(1) have "?S + ?k - 1 \<le> 2 * m - 1" by linarith
    also have "\<dots> \<le> (?t + 1) * m + ?t"
    proof -
      have "2 * m \<le> (?t + 1) * m" using t1 m1 by (intro mult_right_mono) auto
      with t1 show ?thesis by linarith
    qed
    finally show ?thesis by (simp only: j)
  next
    assume kk: "?k \<le> max 0 ov + 1"
    then have kt: "?k \<le> ?t + 1" by linarith
    then have "?k * m \<le> (?t + 1) * m" using m1 by (intro mult_right_mono) auto
    with sb(2) kt have "?S + ?k - 1 \<le> (?t + 1) * m + ?t" by linarith
    then show ?thesis by (simp only: j)
  qed
qed

lemma chunk_loop_bound:
  assumes "chunk_loop m ov ss chunks cur len = Some (chunks', cur')"
    and "\<forall>c\<in>set chunks. int (length c) \<le> (max 1 ov + 1) * m + max 1 ov"
    and "\<forall>s\<in>set cur. s \<noteq> [] \<and> int (length s) \<le> m"
    and "len = (\<Sum>s\<leftarrow>cur. int (length s))"
    and "len \<le> m \<or> int (length cur) \<le> max 0 ov + 1"
  shows "(\<forall>c\<in>set chunks'. int (length c) \<le> (max 1 ov + 1) * m + max 1 ov)
         \<and> (cur' \<noteq> [] \<longrightarrow> int (length (js_join [32] cur')) \<le> (max 1 ov + 1) * m + max 1 ov)"
  using assms
proof (induction ss arbitrary: chunks cur len)
  case Nil
  then show ?case using join_bound [of cur' m ov] by auto
next
  case (Cons s0 rest)
  let ?B = "(max 1 ov + 1) * m + max 1 ov"
  let ?sentence = "js_trim s0"
  let ?sl = "int (length ?sentence)"
  have flush: "int (length (js_join [32] cur)) \<le> ?B" if "cur \<noteq> []"
    using join_bound [OF that Cons.prems(3)] Cons.prems(4,5) by simp
  consider (empty) "?sentence = []"
    | (long) "?sentence \<noteq> []" "?sl > m"
    | (overflow) "?sentence \<noteq> []" "\<not> ?sl > m" "len + ?sl > m \<and> length cur > 0"
    | (push) "?sentence \<noteq> []" "\<not> ?sl > m" "\<not> (len + ?sl > m \<and> length cur > 0)"
    by blast
  then show ?case
  proof cases
    case empty
    with Cons.prems(1) have "chunk_loop m ov rest chunks cur len = Some (chunks', cur')"
      by (simp add: Let_def)
    from Cons.IH [OF this Cons.prems(2-5)] show ?thesis .
  next
    case long
    from long Cons.prems(1) obtain sub where sub: "chunkLongSentence ?sentence m = Some sub"
      by (auto simp: Let_def split: option.splits)
    from long(1) have pos: "0 < int (length ?sentence)" by (cases ?sentence) auto
    from chunkLongSentence_loop_partial [OF sub [unfolded chunkLongSentence_def]] pos
    have big: "50 < m" and pieces: "\<forall>c\<in>set sub. int (length c) \<le> m + 1" by auto
    have "m + 1 \<le> ?B"
    proof -
      have "1 * m \<le> (max 1 ov + 1) * m" using big by (intro mult_right_mono) auto
      then show ?thesis by simp
    qed
    with pieces have pb: "\<forall>c\<in>set sub. int (length c) \<le> ?B" by fastforce
    show ?thesis
    proof (cases "cur = []")
      case True
      with long sub Cons.prems(1) have "chunk_loop m ov rest (chunks @ sub) cur len = Some (chunks', cur')"
        by (simp add: Let_def)
      from Cons.IH [OF this _ Cons.prems(3-5)] Cons.prems(2) pb show ?thesis by auto
    next
      case False
      with long sub Cons.prems(1)
      have "chunk_loop m ov rest ((chunks @ [js_join [32] cur]) @ sub) [] 0 = Some (chunks', cur')"
        by (simp add: Let_def)
      from Cons.IH [OF this] Cons.prems(2) pb flush [OF False] big show ?thesis by auto
    qed
  next
    case overflow
    let ?kept = "drop (nat (max 0 (int (length cur) - ov))) cur"
    from overflow Cons.prems(1)
    have call: "chunk_loop m ov rest (chunks @ [js_join [32] cur]) (?kept @ [?sentence])
            (foldl (\<lambda>sum s. sum + int (length s)) 0 ?kept + ?sl) = Some (chunks', cur')"
      by (simp add: Let_def)
    from overflow(3) have ne: "cur \<noteq> []" by auto
    show ?thesis
    proof (rule Cons.IH [OF call])
      show "\<forall>c\<in>set (chunks @ [js_join [32] cur]). int (length c) \<le> ?B"
        using Cons.prems(2) flush [OF ne] by auto
      show "\<forall>s\<in>set (?kept @ [?sentence]). s \<noteq> [] \<and> int (length s) \<le> m"
        using Cons.prems(3) overflow(1,2) by (auto dest: in_set_dropD)
      show "foldl (\<lambda>sum s. sum + int (length s)) 0 ?kept + ?sl
              = (\<Sum>s\<leftarrow>?kept @ [?sentence]. int (length s))"
        by (simp add: foldl_lengths)
      show "foldl (\<lambda>sum s. sum + int (length s)) 0 ?kept + ?sl \<le> m
              \<or> int (length (?kept @ [?sentence])) \<le> max 0 ov + 1"
        by auto
    qed
  next
    case push
    from push Cons.prems(1)
    have call: "chunk_loop m ov rest chunks (cur @ [?sentence]) (len + ?sl) = Some (chunks', cur')"
      by (auto simp add: Let_def)
    show ?thesis
    proof (rule Cons.IH [OF call Cons.prems(2)])
      show "\<forall>s\<in>set (cur @ [?sentence]). s \<noteq> [] \<and> int (length s) \<le> m"
        using Cons.prems(3) push(1,2) by auto
      show "len + ?sl = (\<Sum>s\<leftarrow>cur @ [?sentence]. int (length s))"
        using Cons.prems(4) by simp
      show "len + ?sl \<le> m \<or> int (length (cur @ [?sentence])) \<le> max 0 ov + 1"
        using push(3) by auto
    qed
  qed
qed

lemma chunk_loop_returns:
  assumes "98 \<le> m"
  shows "\<exists>res. chunk_loop m ov ss chunks cur len = Some res"
proof (induction ss arbitrary: chunks cur len)
  case Nil
  show ?case by simp
next
  case (Cons s0 rest)
  obtain sub where "chunkLongSentence (js_trim s0) m = Some sub"
    using chunkLongSentence_loop_returns [OF assms] unfolding chunkLongSentence_def by blast
  then show ?case
    using Cons.IH by (simp add: Let_def)
qed

text \<open>
  C2, as the code has it. For every text, size limit and overlap count: the chunker returns
  whenever \<open>maxSize\<close> is at least 98; if it returns, every chunk has a trimmed length above 50
  and a length of at most \<open>(max 1 overlapSentences + 1) * maxSize + max 1 overlapSentences\<close>
  (2402 for the defaults 800 and 2); and every piece of a forced split has at most
  \<open>maxSize + 1\<close> characters. A chunk that is not such a piece is the join of sentences of at
  most \<open>maxSize\<close> characters each, whose lengths without the joining spaces sum to at most
  \<open>maxSize\<close> unless the chunk was seeded with the overlap sentences of the chunk before it.
\<close>

theorem chunkTextSemantic_chunks:
  "(98 \<le> maxSize \<longrightarrow> (\<exists>chunks. chunkTextSemantic text maxSize overlapSentences = Some chunks))
   \<and> (\<forall>chunks chunk.
         chunkTextSemantic text maxSize overlapSentences = Some chunks \<and> chunk \<in> set chunks
         \<longrightarrow> 50 < length (js_trim chunk)
             \<and> int (length chunk) \<le> (max 1 overlapSentences + 1) * maxSize + max 1 overlapSentences)
   \<and> (\<forall>pieces piece.
         chunkLongSentence sentence maxSize = Some pieces \<and> piece \<in> set pieces
         \<longrightarrow> int (length piece) \<le> maxSize + 1)"
proof (intro conjI impI allI)
  assume "98 \<le> maxSize"
  from chunk_loop_returns [OF this] obtain res where
    "chunk_loop maxSize overlapSentences
       (case match_sentences
               (js_trim (collapse_runs (\<lambda>c. c = 10) 10 (collapse_runs is_js_space 32 text))) of
          [] \<Rightarrow> [js_trim (collapse_runs (\<lambda>c. c = 10) 10 (collapse_runs is_js_space 32 text))]
        | m # ms \<Rightarrow> m # ms) [] [] 0 = Some res"
    by blast
  then show "\<exists>chunks. chunkTextSemantic text maxSize overlapSentences = Some chunks"
    by (cases res) (simp add: chunkTextSemantic_def Let_def del: chunk_loop.simps)
next
  fix chunks chunk
  assume a: "chunkTextSemantic text maxSize overlapSentences = Some chunks \<and> chunk \<in> set chunks"
  let ?B = "(max 1 overlapSentences + 1) * maxSize + max 1 overlapSentences"
  let ?cleaned = "js_trim (collapse_runs (\<lambda>c. c = 10) 10 (collapse_runs is_js_space 32 text))"
  let ?sentences = "case match_sentences ?cleaned of [] \<Rightarrow> [?cleaned] | m # ms \<Rightarrow> m # ms"
  from a show "50 < length (js_trim chunk)"
    by (auto simp: chunkTextSemantic_def Let_def split: if_splits option.splits)
  show "int (length chunk) \<le> ?B"
  proof (cases "?cleaned = []")
    case True
    with a show ?thesis by (auto simp add: chunkTextSemantic_def Let_def)
  next
    case False
    with a obtain cs cur where
      l: "chunk_loop maxSize overlapSentences ?sentences [] [] 0 = Some (cs, cur)"
      and c: "chunk \<in> set (if length cur > 0 then cs @ [js_join [32] cur] else cs)"
      by (auto simp: chunkTextSemantic_def Let_def split: option.splits if_splits)
    from chunk_loop_bound [OF l] have
      "(\<forall>c\<in>set cs. int (length c) \<le> ?B) \<and> (cur \<noteq> [] \<longrightarrow> int (length (js_join [32] cur)) \<le> ?B)"
      by simp
    with c show ?thesis by (auto split: if_splits)
  qed
next
  fix pieces piece
  assume "chunkLongSentence sentence maxSize = Some pieces \<and> piece \<in> set pieces"
  then show "int (length piece) \<le> maxSize + 1"
    using chunkLongSentence_loop_partial [of sentence maxSize 0 "[]" pieces]
    by (simp add: chunkLongSentence_def)
qed

lemma warranty_sentences:
  "map length (map js_trim (match_sentences warranty_text)) = [50, 49, 48]"
  by (simp add: warranty_text_def ascii_def js_trim_def is_js_space_def is_sentence_end_def)

lemma warranty_chunks:
  "chunkTextSemantic warranty_text 99 2 =
     Some [ascii (''The warranty covers parts and labour for one year. ''
             @ ''Claims are filed through the online service desk.''),
           ascii (''The warranty covers parts and labour for one year. ''
             @ ''Claims are filed through the online service desk. ''
             @ ''Refunds are paid within thirty days of approval.'')]"
  by (simp add: chunkTextSemantic_def warranty_text_def ascii_def js_trim_def is_js_space_def
        is_sentence_end_def Let_def)

lemma warranty_chunks_default: "chunkTextSemantic warranty_text 800 2 = Some [warranty_text]"
  by (simp add: chunkTextSemantic_def warranty_text_def ascii_def js_trim_def is_js_space_def
        is_sentence_end_def Let_def)

lemma js_lastIndexOf_hit:
  assumes "k < length s" and "s ! k = c"
  shows "js_lastIndexOf s c (int k) = int k"
proof -
  have "min (nat (max 0 (int k)) + 1) (length s) = Suc k" using assms(1) by simp
  then show ?thesis using assms(2) by (simp add: js_lastIndexOf_def)
qed

lemma comma_sentence_split:
  "chunkLongSentence comma_sentence 100 =
     Some [replicate 100 97 @ [44], replicate 49 97 @ [44] @ replicate 19 97, replicate 19 97]"
proof -
  have len: "length comma_sentence = 120" by (simp add: comma_sentence_def)
  have hit: "js_lastIndexOf comma_sentence 44 100 = 100"
    using js_lastIndexOf_hit [of 100 comma_sentence 44]
    by (simp add: comma_sentence_def nth_append)
  have fb: "find_break comma_sentence 100 0 100 breakPoints = 101"
    by (simp add: breakPoints_def hit)
  have ns: "\<not> is_js_space 97" "\<not> is_js_space 44" by (simp_all add: is_js_space_def)
  have p1: "js_trim (js_substring comma_sentence 0 101) = replicate 100 97 @ [44]"
    by (simp add: js_substring_def comma_sentence_def js_trim_def ns)
  have r50: "replicate 100 (97::nat) = replicate 51 97 @ replicate 49 97"
    by (simp add: replicate_add [symmetric])
  have p2: "js_trim (js_substring comma_sentence 51 151) = replicate 49 97 @ [44] @ replicate 19 97"
    by (simp add: js_substring_def comma_sentence_def js_trim_def ns r50)
  have p3: "js_trim (js_substring comma_sentence 101 201) = replicate 19 97"
    by (simp add: js_substring_def comma_sentence_def js_trim_def ns)
  have s3: "chunkLongSentence_loop comma_sentence 100 151 acc = Some acc" for acc
    by (subst chunkLongSentence_loop.simps) (simp add: len)
  have s2: "chunkLongSentence_loop comma_sentence 100 101 acc = Some (acc @ [replicate 19 97])" for acc
    by (subst chunkLongSentence_loop.simps) (simp add: len p3 s3)
  have s1: "chunkLongSentence_loop comma_sentence 100 51 acc
              = Some (acc @ [replicate 49 97 @ [44] @ replicate 19 97, replicate 19 97])" for acc
    by (subst chunkLongSentence_loop.simps) (simp add: len p2 s2)
  show ?thesis
    unfolding chunkLongSentence_def
    by (subst chunkLongSentence_loop.simps) (simp add: len fb p1 s1)
qed

theorem chunkTextSemantic_chunks_witness:
  "chunkTextSemantic warranty_text 800 2 = Some [warranty_text]
   \<and> 50 < length (js_trim warranty_text)
   \<and> int (length warranty_text) \<le> (max 1 2 + 1) * 800 + max 1 2
   \<and> chunkLongSentence comma_sentence 100 =
         Some [replicate 100 97 @ [44], replicate 49 97 @ [44] @ replicate 19 97, replicate 19 97]
   \<and> int (length (replicate 100 (97::nat) @ [44])) \<le> 100 + 1"
proof -
  have a: "chunkTextSemantic warranty_text 800 2 = Some [warranty_text]
        \<and> warranty_text \<in> set [warranty_text]"
    by (simp add: warranty_chunks_default)
  have b: "chunkLongSentence comma_sentence 100 =
             Some [replicate 100 97 @ [44], replicate 49 97 @ [44] @ replicate 19 97,
                   replicate 19 97]
        \<and> replicate 100 97 @ [44]
            \<in> set [replicate 100 97 @ [44], replicate 49 97 @ [44] @ replicate 19 97,
                    replicate 19 97]"
    by (simp add: comma_sentence_split)
  from a chunkTextSemantic_chunks [of 800 warranty_text 2]
  have "50 < length (js_trim warranty_text)
        \<and> int (length warranty_text) \<le> (max 1 2 + 1) * 800 + max 1 2"
    by blast
  moreover from b chunkTextSemantic_chunks [of 100 _ _ comma_sentence]
  have "int (length (replicate 100 (97::nat) @ [44])) \<le> 100 + 1"
    by blast
  ultimately show ?thesis using a b by blast
qed

lemma collapse_runs_prefix:
  "\<forall>c\<in>set xs. \<not> p c \<Longrightarrow> collapse_runs p r (xs @ ys) = xs @ collapse_runs p r ys"
  by (induction xs) simp_all

lemma collapse_runs_none: "\<forall>c\<in>set xs. \<not> p c \<Longrightarrow> collapse_runs p r xs = xs"
  using collapse_runs_prefix [of xs p r "[]"] by simp

lemma js_trim_id:
  "s \<noteq> [] \<Longrightarrow> \<not> is_js_space (hd s) \<Longrightarrow> \<not> is_js_space (last s) \<Longrightarrow> js_trim s = s"
proof -
  assume a: "s \<noteq> []" "\<not> is_js_space (hd s)" "\<not> is_js_space (last s)"
  then have 1: "dropWhile is_js_space s = s" by (cases s) auto
  from a have "rev s \<noteq> []" "\<not> is_js_space (hd (rev s))" by (simp_all add: hd_rev)
  then have 2: "dropWhile is_js_space (rev s) = rev s" by (cases "rev s") auto
  show ?thesis by (simp add: js_trim_def 1 2)
qed

lemma js_trim_leading: "is_js_space c \<Longrightarrow> js_trim (c # s) = js_trim s"
  by (simp add: js_trim_def)

lemma match_sentences_step:
  assumes "\<not> is_sentence_end c" and "\<forall>x\<in>set xs. \<not> is_sentence_end x" and "is_sentence_end t"
  shows "match_sentences (c # xs @ t # rest) = (c # xs @ [t]) # match_sentences rest"
  using assms by (simp add: dropWhile_append3 takeWhile_tail)

lemma match_sentences_last:
  assumes "\<not> is_sentence_end c" and "\<forall>x\<in>set xs. \<not> is_sentence_end x" and "is_sentence_end t"
  shows "match_sentences (c # xs @ [t]) = [c # xs @ [t]]"
  using match_sentences_step [OF assms, of "[]"] by simp

lemma space_facts:
  "\<not> is_js_space 97" "\<not> is_js_space 46" "is_js_space 32"
  "\<not> is_sentence_end 97" "\<not> is_sentence_end 32" "is_sentence_end 46"
  by (simp_all add: is_js_space_def is_sentence_end_def)

lemma long_sentence_facts:
  "long_sentence \<noteq> []" "hd long_sentence = 97" "last long_sentence = 46"
  "length long_sentence = 400" "long_sentence = 97 # replicate 398 97 @ [46]"
proof -
  have "replicate 399 (97::nat) = 97 # replicate 398 97"
    using replicate_Suc [of 398 "97::nat"] by simp
  then show e: "long_sentence = 97 # replicate 398 97 @ [46]" by (simp add: long_sentence_def)
  show "long_sentence \<noteq> []" by (simp add: e)
  show "hd long_sentence = 97" by (simp add: e)
  show "last long_sentence = 46" by (simp add: e)
  show "length long_sentence = 400" by (simp add: long_sentence_def)
qed

lemma long_sentence_trim: "js_trim long_sentence = long_sentence"
  by (rule js_trim_id) (simp_all add: long_sentence_facts(1-3) space_facts)

lemma long_text_sentences:
  "match_sentences long_text = [long_sentence, 32 # long_sentence, 32 # long_sentence]"
proof -
  have 1: "match_sentences (32 # long_sentence) = [32 # long_sentence]"
    using match_sentences_last [of 32 "97 # replicate 398 97" 46]
    by (simp add: long_sentence_facts(5) space_facts)
  have 2: "match_sentences (32 # long_sentence @ 32 # long_sentence)
             = [32 # long_sentence, 32 # long_sentence]"
    using match_sentences_step [of 32 "97 # replicate 398 97" 46 "32 # long_sentence"] 1
    by (simp add: long_sentence_facts(5) space_facts)
  show ?thesis
    using match_sentences_step [of 97 "replicate 398 97" 46 "32 # long_sentence @ 32 # long_sentence"] 2
    by (simp add: long_text_def long_sentence_facts(5) space_facts)
qed

lemma long_text_cleaned:
  "js_trim (collapse_runs (\<lambda>c. c = 10) 10 (collapse_runs is_js_space 32 long_text)) = long_text"
proof -
  have ns: "\<forall>c\<in>set long_sentence. \<not> is_js_space c"
    by (auto simp: long_sentence_def space_facts)
  have dw: "dropWhile is_js_space (long_sentence @ ys) = long_sentence @ ys"
    "dropWhile is_js_space long_sentence = long_sentence" for ys
    by (simp_all add: long_sentence_facts(5) space_facts)
  have "collapse_runs is_js_space 32 long_text = long_text"
    unfolding long_text_def
    by (simp add: collapse_runs_prefix [OF ns] collapse_runs_none [OF ns] space_facts dw)
  moreover have "collapse_runs (\<lambda>c. c = 10) 10 long_text = long_text"
    by (rule collapse_runs_none) (auto simp: long_text_def long_sentence_def)
  moreover have "js_trim long_text = long_text"
    by (rule js_trim_id) (simp_all add: long_text_def long_sentence_facts(1-3) space_facts)
  ultimately show ?thesis by simp
qed

lemma long_text_chunks:
  "chunkTextSemantic long_text 800 2 =
     Some [long_sentence @ [32] @ long_sentence,
           long_sentence @ [32] @ long_sentence @ [32] @ long_sentence]"
proof -
  have ne: "long_text \<noteq> []" by (simp add: long_text_def long_sentence_facts(1))
  have t: "js_trim (32 # long_sentence) = long_sentence"
    by (simp add: js_trim_leading space_facts long_sentence_trim)
  have loop: "chunk_loop 800 2 [long_sentence, 32 # long_sentence, 32 # long_sentence] [] [] 0
          = Some ([long_sentence @ [32] @ long_sentence],
                  [long_sentence, long_sentence, long_sentence])"
    by (simp add: t long_sentence_trim long_sentence_facts(1,4) Let_def)
  have j2: "js_trim (long_sentence @ 32 # long_sentence) = long_sentence @ 32 # long_sentence"
    by (rule js_trim_id) (simp_all add: long_sentence_facts(1-3) space_facts)
  have j3: "js_trim (long_sentence @ 32 # long_sentence @ 32 # long_sentence)
              = long_sentence @ 32 # long_sentence @ 32 # long_sentence"
    by (rule js_trim_id) (simp_all add: long_sentence_facts(1-3) space_facts)
  show ?thesis
    unfolding chunkTextSemantic_def long_text_cleaned Let_def long_text_sentences
    using ne by (simp add: loop j2 j3 long_sentence_facts(4) del: chunk_loop.simps)
qed

lemma long_text_lengths:
  "length (long_sentence @ [32] @ long_sentence) = 801"
  "length (long_sentence @ [32] @ long_sentence @ [32] @ long_sentence) = 1202"
  by (simp_all add: long_sentence_facts(4))


text \<open>
  The claim as stated fails. With the limit 99 and the overlap 2, no sentence of the text is
  longer than 50 characters, so no split is forced, and both chunks are longer than the
  limit: the first is two sentences of 50 + 49 = 99 characters joined by a space the limit
  does not count, the second is the two overlap sentences and the third sentence. With the
  defaults 800 and 2 and three sentences of 400 characters it is the same: the chunks have
  801 and 1202 characters.
\<close>

theorem chunkTextSemantic_chunks_counterexample:
  "chunkTextSemantic warranty_text 99 2 =
     Some [ascii (''The warranty covers parts and labour for one year. ''
             @ ''Claims are filed through the online service desk.''),
           ascii (''The warranty covers parts and labour for one year. ''
             @ ''Claims are filed through the online service desk. ''
             @ ''Refunds are paid within thirty days of approval.'')]
   \<and> length (ascii (''The warranty covers parts and labour for one year. ''
             @ ''Claims are filed through the online service desk.'')) = 100
   \<and> length (ascii (''The warranty covers parts and labour for one year. ''
             @ ''Claims are filed through the online service desk. ''
             @ ''Refunds are paid within thirty days of approval.'')) = 149
   \<and> map length (map js_trim (match_sentences warranty_text)) = [50, 49, 48]
   \<and> chunkTextSemantic long_text 800 2 =
         Some [long_sentence @ [32] @ long_sentence,
               long_sentence @ [32] @ long_sentence @ [32] @ long_sentence]
   \<and> length (long_sentence @ [32] @ long_sentence) = 801
   \<and> length (long_sentence @ [32] @ long_sentence @ [32] @ long_sentence) = 1202
   \<and> map length (map js_trim (match_sentences long_text)) = [400, 400, 400]"
proof -
  have "map length (map js_trim (match_sentences long_text)) = [400, 400, 400]"
    by (simp add: long_text_sentences js_trim_leading space_facts long_sentence_trim
          long_sentence_facts(4))
  with warranty_chunks warranty_sentences long_text_chunks long_text_lengths
  show ?thesis by (simp add: ascii_def)
qed

end
